theory Spec2Isabelle
  imports Main "HOL-Library.Monad_Syntax"
begin

text \<open>
  A model of the parsing core of \<^verbatim>\<open>main.go\<close>: the functions \<^verbatim>\<open>parseHeader\<close>,
  \<^verbatim>\<open>splitSubjects\<close>, \<^verbatim>\<open>parseSubjects\<close>, \<^verbatim>\<open>parseDay\<close> and \<^verbatim>\<open>parseSchedule\<close>,
  over models of the functions of Go's packages \<^verbatim>\<open>unicode/utf8\<close>, \<^verbatim>\<open>unicode\<close>,
  \<^verbatim>\<open>strings\<close> and \<^verbatim>\<open>regexp\<close> that they call. The HTTP handler of \<^verbatim>\<open>main\<close>, which
  fetches the page and flattens its table into the text that \<^verbatim>\<open>parseSchedule\<close> reads, is
  not modelled.
\<close>

section \<open>Go strings: bytes and UTF-8\<close>

text \<open>
  A Go string is a sequence of bytes; \<^typ>\<open>string\<close> is a list of 8-bit characters, so a
  Go string is modelled byte for byte. Text outside ASCII is spelled by its UTF-8 bytes,
  exactly as the source file \<^verbatim>\<open>main.go\<close> holds it. A rune is a Unicode code point.
\<close>

type_synonym rune = nat

definition RuneError :: rune where
  "RuneError = 0xFFFD"

definition RuneSelf :: nat where
  "RuneSelf = 0x80"

text \<open>
  \<^verbatim>\<open>utf8.DecodeRuneInString\<close>: the first rune of \<open>s\<close> and its width in bytes. An empty
  string gives \<open>(RuneError, 0)\<close>; an invalid or truncated encoding gives
  \<open>(RuneError, 1)\<close>. The table \<^verbatim>\<open>first\<close> of the Go library is written out: bytes
  below 0x80 are ASCII, 0xC2..0xDF start two bytes, 0xE0..0xEF three, 0xF0..0xF4 four,
  every other byte is invalid; the second byte must lie in the accept range of the first.
\<close>

definition DecodeRuneInString :: "string \<Rightarrow> rune \<times> nat" where
  "DecodeRuneInString s =
    (case s of
      [] \<Rightarrow> (RuneError, 0)
    | c0 # _ \<Rightarrow>
        let s0 = (of_char c0 :: nat) in
        if s0 < 0x80 then (s0, 1)
        else if s0 < 0xC2 \<or> 0xF5 \<le> s0 then (RuneError, 1)
        else
          let sz = (if s0 < 0xE0 then 2 else if s0 < 0xF0 then 3 else (4::nat));
              lo = (if s0 = 0xE0 then 0xA0 else if s0 = 0xF0 then 0x90 else (0x80::nat));
              hi = (if s0 = 0xED then 0x9F else if s0 = 0xF4 then 0x8F else (0xBF::nat))
          in
          if length s < sz then (RuneError, 1)
          else
            let s1 = (of_char (s ! 1) :: nat) in
            if s1 < lo \<or> hi < s1 then (RuneError, 1)
            else if sz \<le> 2 then ((s0 mod 32) * 64 + s1 mod 64, 2)
            else
              let s2 = (of_char (s ! 2) :: nat) in
              if s2 < 0x80 \<or> 0xBF < s2 then (RuneError, 1)
              else if sz \<le> 3 then ((s0 mod 16) * 4096 + (s1 mod 64) * 64 + s2 mod 64, 3)
              else
                let s3 = (of_char (s ! 3) :: nat) in
                if s3 < 0x80 \<or> 0xBF < s3 then (RuneError, 1)
                else ((s0 mod 8) * 262144 + (s1 mod 64) * 4096 + (s2 mod 64) * 64
                        + s3 mod 64, 4))"

text \<open>\<^verbatim>\<open>utf8.RuneStart\<close>: the byte is not a continuation byte.\<close>

definition RuneStart :: "char \<Rightarrow> bool" where
  "RuneStart b = (\<not> (0x80 \<le> (of_char b :: nat) \<and> (of_char b :: nat) < 0xC0))"

text \<open>
  The backwards scan of \<^verbatim>\<open>utf8.DecodeLastRuneInString\<close>:
  \<^verbatim>\<open>for start--; start >= lim; start-- { if RuneStart(s[start]) { break } }\<close>,
  entered here with \<open>start\<close> already decremented.
\<close>

function scanStart :: "string \<Rightarrow> int \<Rightarrow> int \<Rightarrow> int" where
  "scanStart s lim start =
    (if start \<ge> lim \<and> \<not> RuneStart (s ! nat start) then scanStart s lim (start - 1)
     else start)"
  by pat_completeness auto
termination
  by (relation "measure (\<lambda>(s, lim, start). nat (start - lim + 1))") auto

declare scanStart.simps [simp del]

text \<open>\<^verbatim>\<open>utf8.DecodeLastRuneInString\<close>: the last rune of \<open>s\<close> and its width.\<close>

definition DecodeLastRuneInString :: "string \<Rightarrow> rune \<times> nat" where
  "DecodeLastRuneInString s =
    (let end = int (length s) in
     if end = 0 then (RuneError, 0)
     else
       let r = (of_char (s ! nat (end - 1)) :: nat) in
       if r < RuneSelf then (r, 1)
       else
         let lim = max 0 (end - 4);
             start = max 0 (scanStart s lim (end - 2));
             (r', size') = DecodeRuneInString (drop (nat start) s)
         in if start + int size' \<noteq> end then (RuneError, 1) else (r', size'))"

text \<open>
  \<^verbatim>\<open>unicode.IsSpace\<close>: the Latin-1 spaces and the code points of the Unicode
  property White\_Space.
\<close>

definition IsSpace :: "rune \<Rightarrow> bool" where
  "IsSpace r =
    ((0x09 \<le> r \<and> r \<le> 0x0D) \<or> r = 0x20 \<or> r = 0x85 \<or> r = 0xA0 \<or> r = 0x1680
     \<or> (0x2000 \<le> r \<and> r \<le> 0x200A) \<or> r = 0x2028 \<or> r = 0x2029 \<or> r = 0x202F
     \<or> r = 0x205F \<or> r = 0x3000)"

text \<open>The table \<^verbatim>\<open>asciiSpace\<close> of package strings: tab, newline, VT, FF, CR, space.\<close>

definition asciiSpace :: "char \<Rightarrow> bool" where
  "asciiSpace c = ((0x09 \<le> (of_char c :: nat) \<and> (of_char c :: nat) \<le> 0x0D)
                    \<or> (of_char c :: nat) = 0x20)"

section \<open>Package strings\<close>

definition HasPrefix :: "string \<Rightarrow> string \<Rightarrow> bool" where
  "HasPrefix s pre = (length pre \<le> length s \<and> take (length pre) s = pre)"

definition HasSuffix :: "string \<Rightarrow> string \<Rightarrow> bool" where
  "HasSuffix s suf = (length suf \<le> length s \<and> drop (length s - length suf) s = suf)"

definition TrimPrefix :: "string \<Rightarrow> string \<Rightarrow> string" where
  "TrimPrefix s pre = (if HasPrefix s pre then drop (length pre) s else s)"

definition TrimSuffix :: "string \<Rightarrow> string \<Rightarrow> string" where
  "TrimSuffix s suf = (if HasSuffix s suf then take (length s - length suf) s else s)"

text \<open>
  \<^verbatim>\<open>strings.Index\<close>: the byte index of the first occurrence of \<open>sub\<close>, \<open>None\<close> for Go's
  \<open>-1\<close>.
\<close>

fun Index :: "string \<Rightarrow> string \<Rightarrow> nat option" where
  "Index [] sub = (if sub = [] then Some 0 else None)"
| "Index (c # cs) sub =
    (if HasPrefix (c # cs) sub then Some 0 else map_option Suc (Index cs sub))"

definition Contains :: "string \<Rightarrow> string \<Rightarrow> bool" where
  "Contains s sub = (Index s sub \<noteq> None)"

text \<open>
  \<^verbatim>\<open>explode\<close>: the string cut into its UTF-8 sequences (what \<^verbatim>\<open>Split\<close> and
  \<^verbatim>\<open>Replace\<close> do for an empty separator).
\<close>

function explode :: "string \<Rightarrow> string list" where
  "explode s =
    (if s = [] then []
     else take (max 1 (snd (DecodeRuneInString s))) s
            # explode (drop (max 1 (snd (DecodeRuneInString s))) s))"
  by pat_completeness auto
termination
  by (relation "measure length") auto

declare explode.simps [simp del]

text \<open>
  \<^verbatim>\<open>strings.Split(s, sep)\<close> (\<^verbatim>\<open>genSplit\<close> with \<open>n = -1\<close>): the pieces between the
  successive non-overlapping occurrences of \<open>sep\<close>, found left to right by
  \<^verbatim>\<open>Index\<close>; always at least one piece for a non-empty separator.
\<close>

lemma Index_Some_le: "Index s sub = Some m \<Longrightarrow> m + length sub \<le> length s"
proof (induction s arbitrary: m)
  case Nil
  then show ?case by (simp split: if_splits)
next
  case (Cons c cs)
  show ?case
  proof (cases "HasPrefix (c # cs) sub")
    case True
    with Cons.prems show ?thesis by (simp add: HasPrefix_def)
  next
    case False
    with Cons.prems obtain k where "Index cs sub = Some k" "m = Suc k" by auto
    with Cons.IH show ?thesis by fastforce
  qed
qed

function genSplit :: "string \<Rightarrow> string \<Rightarrow> string list" where
  "genSplit s sep =
    (case Index s sep of
      None \<Rightarrow> [s]
    | Some m \<Rightarrow>
        if sep = [] then [s]
        else take m s # genSplit (drop (m + length sep) s) sep)"
  by pat_completeness auto
termination
proof (relation "measure (\<lambda>(s, sep). length s)")
  show "wf (measure (\<lambda>(s, sep). length s))" by simp
next
  fix s sep :: string and m
  assume "Index s sep = Some m" "sep \<noteq> []"
  then have "m + length sep \<le> length s" "1 \<le> length sep"
    by (auto dest: Index_Some_le simp: Suc_le_eq)
  then show "((drop (m + length sep) s, sep), (s, sep)) \<in> measure (\<lambda>(s, sep). length s)"
    by (simp del: One_nat_def)
qed

declare genSplit.simps [simp del]

definition Split :: "string \<Rightarrow> string \<Rightarrow> string list" where
  "Split s sep = (if sep = [] then explode s else genSplit s sep)"

text \<open>
  \<^verbatim>\<open>strings.ReplaceAll(s, old, new)\<close> (\<^verbatim>\<open>Replace\<close> with \<open>n = -1\<close>): every
  non-overlapping occurrence of \<open>old\<close>, found left to right, is replaced by \<open>new\<close>.
  For an empty \<open>old\<close> Go inserts \<open>new\<close> in front of every UTF-8 sequence and at the end.
\<close>

function replaceLoop :: "string \<Rightarrow> string \<Rightarrow> string \<Rightarrow> string" where
  "replaceLoop s old new =
    (case Index s old of
      None \<Rightarrow> s
    | Some j \<Rightarrow>
        if old = [] then s
        else take j s @ new @ replaceLoop (drop (j + length old) s) old new)"
  by pat_completeness auto
termination
proof (relation "measure (\<lambda>(s, old, new). length s)")
  show "wf (measure (\<lambda>(s, old, new). length s))" by simp
next
  fix s old new :: string and j
  assume "Index s old = Some j" "old \<noteq> []"
  then have "j + length old \<le> length s" "1 \<le> length old"
    by (auto dest: Index_Some_le simp: Suc_le_eq)
  then show "((drop (j + length old) s, old, new), (s, old, new))
      \<in> measure (\<lambda>(s, old, new). length s)"
    by (simp del: One_nat_def)
qed

declare replaceLoop.simps [simp del]

definition ReplaceAll :: "string \<Rightarrow> string \<Rightarrow> string \<Rightarrow> string" where
  "ReplaceAll s old new =
    (if old = new then s
     else if old = [] then new @ concat (map (\<lambda>r. r @ new) (explode s))
     else replaceLoop s old new)"


text \<open>Every decoded rune of a non-empty string is at least one byte wide.\<close>

lemma DecodeRuneInString_width:
  "s \<noteq> [] \<Longrightarrow> 1 \<le> snd (DecodeRuneInString s) \<and> snd (DecodeRuneInString s) \<le> length s"
  by (cases s) (auto simp: DecodeRuneInString_def Let_def Suc_le_eq not_less)

lemma scanStart_le: "scanStart s lim st \<le> st"
proof (induction s lim st rule: scanStart.induct)
  case (1 s lim start)
  then show ?case by (subst scanStart.simps) (auto simp del: scanStart.simps)
qed

lemma DecodeLastRuneInString_width:
  "s \<noteq> [] \<Longrightarrow>
    1 \<le> snd (DecodeLastRuneInString s) \<and> snd (DecodeLastRuneInString s) \<le> length s"
proof -
  assume ne: "s \<noteq> []"
  define start where "start = max 0 (scanStart s (max 0 (int (length s) - 4)) (int (length s) - 2))"
  have s0: "0 \<le> start" by (simp add: start_def)
  have s1: "start < int (length s)"
    using scanStart_le [of s "max 0 (int (length s) - 4)" "int (length s) - 2"] ne
    by (simp add: start_def)
  have len: "1 \<le> length s" using ne by (simp add: Suc_le_eq)
  obtain a b where ab: "DecodeRuneInString (drop (nat start) s) = (a, b)"
    by (cases "DecodeRuneInString (drop (nat start) s)")
  have "DecodeLastRuneInString s = (if (of_char (s ! nat (int (length s) - 1)) :: nat) < RuneSelf
      then (of_char (s ! nat (int (length s) - 1)), 1)
      else if start + int b \<noteq> int (length s) then (RuneError, 1) else (a, b))"
    using ne ab by (simp add: DecodeLastRuneInString_def Let_def start_def [symmetric])
  moreover have "start + int b = int (length s) \<Longrightarrow> 1 \<le> b \<and> b \<le> length s"
  proof -
    assume e: "start + int b = int (length s)"
    show ?thesis
    proof (cases "drop (nat start) s = []")
      case True
      then have "b = 0" using ab by (simp add: DecodeRuneInString_def)
      with e s1 show ?thesis by simp
    next
      case False
      from DecodeRuneInString_width [OF False] ab have "1 \<le> b" by simp
      moreover from e s0 have "b \<le> length s" by linarith
      ultimately show ?thesis by simp
    qed
  qed
  ultimately show ?thesis using len by (auto simp del: One_nat_def)
qed

text \<open>
  \<^verbatim>\<open>strings.TrimLeftFunc(s, f)\<close>: \<^verbatim>\<open>indexFunc\<close> ranges over the runes of \<open>s\<close> and
  stops at the first rune that does not satisfy \<open>f\<close>; everything before it is cut.
\<close>

function TrimLeftFunc :: "(rune \<Rightarrow> bool) \<Rightarrow> string \<Rightarrow> string" where
  "TrimLeftFunc f s =
    (if s = [] then []
     else if f (fst (DecodeRuneInString s))
       then TrimLeftFunc f (drop (snd (DecodeRuneInString s)) s)
     else s)"
  by pat_completeness auto
termination
proof (relation "measure (\<lambda>(f, s). length s)")
  show "wf (measure (\<lambda>(f, s). length s))" by simp
next
  fix f :: "rune \<Rightarrow> bool" and s :: string
  assume "s \<noteq> []"
  then have "1 \<le> snd (DecodeRuneInString s)" "1 \<le> length s"
    using DecodeRuneInString_width by (auto simp: Suc_le_eq)
  then show "((f, drop (snd (DecodeRuneInString s)) s), (f, s)) \<in> measure (\<lambda>(f, s). length s)"
    by (simp del: One_nat_def)
qed

declare TrimLeftFunc.simps [simp del]

text \<open>
  \<^verbatim>\<open>lastIndexFunc(s, f, false)\<close>: the byte index of the last rune that does not satisfy
  \<open>f\<close>, scanning backwards with \<^verbatim>\<open>DecodeLastRuneInString\<close>; \<open>None\<close> for Go's \<open>-1\<close>.
\<close>

function lastIndexFunc :: "(rune \<Rightarrow> bool) \<Rightarrow> string \<Rightarrow> nat option" where
  "lastIndexFunc f s =
    (if s = [] then None
     else if \<not> f (fst (DecodeLastRuneInString s))
       then Some (length s - snd (DecodeLastRuneInString s))
     else lastIndexFunc f (take (length s - snd (DecodeLastRuneInString s)) s))"
  by pat_completeness auto
termination
proof (relation "measure (\<lambda>(f, s). length s)")
  show "wf (measure (\<lambda>(f, s). length s))" by simp
next
  fix f :: "rune \<Rightarrow> bool" and s :: string
  assume "s \<noteq> []"
  then have "1 \<le> snd (DecodeLastRuneInString s)" "1 \<le> length s"
    using DecodeLastRuneInString_width by (auto simp: Suc_le_eq)
  then show "((f, take (length s - snd (DecodeLastRuneInString s)) s), (f, s))
      \<in> measure (\<lambda>(f, s). length s)"
    by (simp del: One_nat_def)
qed

declare lastIndexFunc.simps [simp del]

text \<open>
  \<^verbatim>\<open>strings.TrimRightFunc(s, f)\<close>: cut after the last rune that does not satisfy \<open>f\<close>
  (after its whole encoding when it starts with a byte \<open>\<ge> RuneSelf\<close>).
\<close>

definition TrimRightFunc :: "(rune \<Rightarrow> bool) \<Rightarrow> string \<Rightarrow> string" where
  "TrimRightFunc f s =
    (case lastIndexFunc f s of
      None \<Rightarrow> []
    | Some i \<Rightarrow>
        if (of_char (s ! i) :: nat) \<ge> RuneSelf
          then take (i + snd (DecodeRuneInString (drop i s))) s
        else take (i + 1) s)"

definition TrimFunc :: "(rune \<Rightarrow> bool) \<Rightarrow> string \<Rightarrow> string" where
  "TrimFunc f s = TrimRightFunc f (TrimLeftFunc f s)"

text \<open>
  \<^verbatim>\<open>strings.TrimSpace\<close>. The first loop skips leading ASCII spaces; at a byte
  \<open>\<ge> RuneSelf\<close> it hands the rest to \<^verbatim>\<open>TrimFunc(s[start:], unicode.IsSpace)\<close>. The second
  loop skips trailing ASCII spaces; at a byte \<open>\<ge> RuneSelf\<close> it hands over to
  \<^verbatim>\<open>TrimRightFunc(s[start:stop], unicode.IsSpace)\<close>.
\<close>

definition TrimSpace :: "string \<Rightarrow> string" where
  "TrimSpace s =
    (let s1 = dropWhile asciiSpace s in
     case s1 of
       [] \<Rightarrow> []
     | c # _ \<Rightarrow>
         if (of_char c :: nat) \<ge> RuneSelf then TrimFunc IsSpace s1
         else
           let s2 = rev (dropWhile asciiSpace (rev s1)) in
           if (of_char (last s2) :: nat) \<ge> RuneSelf then TrimRightFunc IsSpace s2
           else s2)"


section \<open>Package regexp\<close>

text \<open>
  The two patterns of the program, as syntax trees of the part of the RE2 syntax they use.
  A literal is one rune; a character class is a predicate on runes; the repetitions of the
  two patterns all repeat a single character class, so \<open>Star\<close>, \<open>LazyStar\<close> (\<open>*?\<close>),
  \<open>Plus\<close> and \<open>Repeat\<close> (\<open>{n}\<close>) take a class. \<open>Capture n\<close> is the \<open>n\<close>-th parenthesis;
  a non-capturing group \<open>(?:...)\<close> is its content. Both patterns are constants of the
  program and valid RE2 syntax, so \<^verbatim>\<open>regexp.MustCompile\<close> returns their compiled form
  and does not panic; the model starts from the syntax trees.
\<close>

datatype regex =
    Literal rune
  | CharClass "rune \<Rightarrow> bool"
  | BeginText
  | Concat "regex list"
  | Quest regex
  | Star "rune \<Rightarrow> bool"
  | LazyStar "rune \<Rightarrow> bool"
  | Plus "rune \<Rightarrow> bool"
  | Repeat nat "rune \<Rightarrow> bool"
  | Capture nat regex

text \<open>\<^verbatim>\<open>syntax.Regexp.MaxCap\<close>: the largest capture index, Go's \<^verbatim>\<open>numSubexp\<close>.\<close>

fun MaxCap :: "regex \<Rightarrow> nat" where
  "MaxCap (Capture n r) = max n (MaxCap r)"
| "MaxCap (Concat rs) = fold max (map MaxCap rs) 0"
| "MaxCap (Quest r) = MaxCap r"
| "MaxCap _ = 0"

text \<open>
  The backtracking search that defines Go's leftmost-first match: what is still to be
  matched is a stack of frames, a frame being a sub-expression or the closing of a capture
  (\<^verbatim>\<open>InstCapture\<close> with an odd index). The capture array \<^verbatim>\<open>cap\<close> maps an index to a
  byte position, unset for Go's \<open>-1\<close>. Input is consumed rune by rune with
  \<^verbatim>\<open>DecodeRuneInString\<close>, as \<^verbatim>\<open>inputString.step\<close> does. A greedy operator tries the
  longer alternative first, a lazy one the shorter; the first success is the match.
\<close>

datatype frame = Re regex | SetCap nat

lemma rune_step_shorter:
  "s \<noteq> [] \<Longrightarrow> length s - snd (DecodeRuneInString s) < length s"
proof -
  assume "s \<noteq> []"
  then have "1 \<le> snd (DecodeRuneInString s)" "1 \<le> length s"
    using DecodeRuneInString_width by (auto simp: Suc_le_eq)
  then show ?thesis by arith
qed

text \<open>The size of a frame, for the termination proof of the search.\<close>

fun weight :: "frame \<Rightarrow> nat" where
  "weight (Re r) = 2 * size r + 1"
| "weight (SetCap k) = 1"

function bt :: "frame list \<Rightarrow> nat \<Rightarrow> string \<Rightarrow> (nat \<rightharpoonup> nat) \<Rightarrow> (nat \<rightharpoonup> nat) option" where
  "bt [] pos s cap = Some (cap(1 \<mapsto> pos))"
| "bt (SetCap k # fs) pos s cap = bt fs pos s (cap(k \<mapsto> pos))"
| "bt (Re (Literal r) # fs) pos s cap =
    (if s \<noteq> [] \<and> fst (DecodeRuneInString s) = r
       then bt fs (pos + snd (DecodeRuneInString s)) (drop (snd (DecodeRuneInString s)) s) cap
     else None)"
| "bt (Re (CharClass f) # fs) pos s cap =
    (if s \<noteq> [] \<and> f (fst (DecodeRuneInString s))
       then bt fs (pos + snd (DecodeRuneInString s)) (drop (snd (DecodeRuneInString s)) s) cap
     else None)"
| "bt (Re BeginText # fs) pos s cap = (if pos = 0 then bt fs pos s cap else None)"
| "bt (Re (Concat []) # fs) pos s cap = bt fs pos s cap"
| "bt (Re (Concat (r # rs)) # fs) pos s cap = bt (Re r # Re (Concat rs) # fs) pos s cap"
| "bt (Re (Capture n r) # fs) pos s cap =
    bt (Re r # SetCap (2 * n + 1) # fs) pos s (cap(2 * n \<mapsto> pos))"
| "bt (Re (Quest r) # fs) pos s cap =
    (case bt (Re r # fs) pos s cap of
      Some c \<Rightarrow> Some c
    | None \<Rightarrow> bt fs pos s cap)"
| "bt (Re (Star f) # fs) pos s cap =
    (if s \<noteq> [] \<and> f (fst (DecodeRuneInString s))
       then (case bt (Re (Star f) # fs) (pos + snd (DecodeRuneInString s))
                    (drop (snd (DecodeRuneInString s)) s) cap of
              Some c \<Rightarrow> Some c
            | None \<Rightarrow> bt fs pos s cap)
     else bt fs pos s cap)"
| "bt (Re (LazyStar f) # fs) pos s cap =
    (case bt fs pos s cap of
      Some c \<Rightarrow> Some c
    | None \<Rightarrow>
        if s \<noteq> [] \<and> f (fst (DecodeRuneInString s))
          then bt (Re (LazyStar f) # fs) (pos + snd (DecodeRuneInString s))
                 (drop (snd (DecodeRuneInString s)) s) cap
        else None)"
| "bt (Re (Plus f) # fs) pos s cap =
    (if s \<noteq> [] \<and> f (fst (DecodeRuneInString s))
       then bt (Re (Star f) # fs) (pos + snd (DecodeRuneInString s))
              (drop (snd (DecodeRuneInString s)) s) cap
     else None)"
| "bt (Re (Repeat 0 f) # fs) pos s cap = bt fs pos s cap"
| "bt (Re (Repeat (Suc n) f) # fs) pos s cap =
    (if s \<noteq> [] \<and> f (fst (DecodeRuneInString s))
       then bt (Re (Repeat n f) # fs) (pos + snd (DecodeRuneInString s))
              (drop (snd (DecodeRuneInString s)) s) cap
     else None)"
  by pat_completeness auto
termination
  by (relation "measures [\<lambda>(fs, pos, s, cap). length s,
                          \<lambda>(fs, pos, s, cap). sum_list (map weight fs)]")
     (auto simp: rune_step_shorter)


declare bt.simps [simp del]

text \<open>
  The unanchored search of \<^verbatim>\<open>backtrack\<close>: a match is tried at every rune boundary from
  left to right, with \<open>cap[0]\<close> set to the start; the first start that matches wins. The
  loop ends after the try at the end of the text.
\<close>

function search :: "regex \<Rightarrow> nat \<Rightarrow> string \<Rightarrow> (nat \<rightharpoonup> nat) option" where
  "search re pos s =
    (case bt [Re re] pos s [0 \<mapsto> pos] of
      Some cap \<Rightarrow> Some cap
    | None \<Rightarrow>
        if s = [] then None
        else search re (pos + snd (DecodeRuneInString s)) (drop (snd (DecodeRuneInString s)) s))"
  by pat_completeness auto
termination
  by (relation "measure (\<lambda>(re, pos, s). length s)") (auto simp: rune_step_shorter)

declare search.simps [simp del]

text \<open>
  \<^verbatim>\<open>(*Regexp).FindStringSubmatch\<close>: \<open>nil\<close> (the empty list) when nothing matches, else
  the matched text followed by the text of every capture, \<open>""\<close> for a capture that took no
  part in the match: \<open>1 + numSubexp\<close> strings.
\<close>

definition submatch :: "string \<Rightarrow> (nat \<rightharpoonup> nat) \<Rightarrow> nat \<Rightarrow> string" where
  "submatch s cap i =
    (case (cap (2 * i), cap (2 * i + 1)) of
      (Some b, Some e) \<Rightarrow> take (e - b) (drop b s)
    | _ \<Rightarrow> [])"

definition FindStringSubmatch :: "regex \<Rightarrow> string \<Rightarrow> string list" where
  "FindStringSubmatch re s =
    (case search re 0 s of
      None \<Rightarrow> []
    | Some cap \<Rightarrow> map (submatch s cap) [0..<1 + MaxCap re])"

text \<open>The character classes of the two patterns.\<close>

definition digit :: "rune \<Rightarrow> bool" where \<comment> \<open>\<open>\d\<close> and \<open>[0-9]\<close>\<close>
  "digit r = (0x30 \<le> r \<and> r \<le> 0x39)"

definition upper :: "rune \<Rightarrow> bool" where \<comment> \<open>\<open>[A-Z]\<close>\<close>
  "upper r = (0x41 \<le> r \<and> r \<le> 0x5A)"

definition lower :: "rune \<Rightarrow> bool" where \<comment> \<open>\<open>[a-z]\<close>\<close>
  "lower r = (0x61 \<le> r \<and> r \<le> 0x7A)"

definition perlSpace :: "rune \<Rightarrow> bool" where \<comment> \<open>\<open>\s\<close>, that is \<open>[\t\n\f\r ]\<close>\<close>
  "perlSpace r = (r = 0x09 \<or> r = 0x0A \<or> r = 0x0C \<or> r = 0x0D \<or> r = 0x20)"

definition anyCharNotNL :: "rune \<Rightarrow> bool" where \<comment> \<open>\<open>.\<close>\<close>
  "anyCharNotNL r = (r \<noteq> 0x0A)"

definition upperDigit :: "rune \<Rightarrow> bool" where \<comment> \<open>\<open>[A-Z0-9]\<close>\<close>
  "upperDigit r = (upper r \<or> digit r)"

definition digitDash :: "rune \<Rightarrow> bool" where \<comment> \<open>\<open>[0-9\-]\<close>\<close>
  "digitDash r = (digit r \<or> r = 0x2D)"

definition alnumDot :: "rune \<Rightarrow> bool" where \<comment> \<open>\<open>[A-Za-z0-9\.]\<close>\<close>
  "alnumDot r = (upper r \<or> lower r \<or> digit r \<or> r = 0x2E)"

definition notDash :: "rune \<Rightarrow> bool" where \<comment> \<open>\<open>[^\-]\<close>\<close>
  "notDash r = (r \<noteq> 0x2D)"

text \<open>A run of ASCII literals of a pattern.\<close>

definition ascii :: "string \<Rightarrow> regex list" where
  "ascii s = map (\<lambda>c. Literal (of_char c)) s"

section \<open>The program\<close>

text \<open>The string constants of \<^verbatim>\<open>main.go\<close>, by their UTF-8 bytes.\<close>

abbreviation (input) tiet_space :: string where \<comment> \<open>\<open>" tiet "\<close> with U+1EBF for the e\<close>
  "tiet_space \<equiv> '' ti'' @ [CHR 0xE1, CHR 0xBA, CHR 0xBF] @ ''t ''"

abbreviation (input) tiet_newline :: string where \<comment> \<open>\<open>" tiet\n"\<close> with U+1EBF for the e\<close>
  "tiet_newline \<equiv> '' ti'' @ [CHR 0xE1, CHR 0xBA, CHR 0xBF] @ ''t'' @ [CHR 0x0A]"

abbreviation (input) newline :: string where
  "newline \<equiv> [CHR 0x0A]"

abbreviation (input) Nghi :: string where \<comment> \<open>\<open>"Nghi"\<close> with U+1EC9 for the i\<close>
  "Nghi \<equiv> ''Ngh'' @ [CHR 0xE1, CHR 0xBB, CHR 0x89]"

abbreviation (input) Sang_label :: string where \<comment> \<open>\<open>"Sang:"\<close> with U+00E1 for the a\<close>
  "Sang_label \<equiv> ''S'' @ [CHR 0xC3, CHR 0xA1] @ ''ng:''"

abbreviation (input) Chieu_label :: string where \<comment> \<open>\<open>"Chieu:"\<close> with U+1EC1 for the e\<close>
  "Chieu_label \<equiv> ''Chi'' @ [CHR 0xE1, CHR 0xBB, CHR 0x81] @ ''u:''"

abbreviation (input) Toi_label :: string where \<comment> \<open>\<open>"Toi:"\<close> with U+1ED1 for the o\<close>
  "Toi_label \<equiv> ''T'' @ [CHR 0xE1, CHR 0xBB, CHR 0x91] @ ''i:''"

abbreviation (input) Thu :: string where \<comment> \<open>\<open>"Thu"\<close> with U+1EE9 for the u\<close>
  "Thu \<equiv> ''Th'' @ [CHR 0xE1, CHR 0xBB, CHR 0xA9]"

abbreviation (input) Chu_nhat :: string where \<comment> \<open>\<open>"Chu nhat"\<close> with U+1EE7 and U+1EAD\<close>
  "Chu_nhat \<equiv> ''Ch'' @ [CHR 0xE1, CHR 0xBB, CHR 0xA7] @ '' nh''
                @ [CHR 0xE1, CHR 0xBA, CHR 0xAD] @ ''t''"

record Subject =
  Name :: string
  Group :: string
  Class :: string
  Period :: string
  Room :: string
  Teacher :: string
  Lessons :: string

record DaySchedule =
  Sang :: "Subject list"
  Chieu :: "Subject list"
  Toi :: "Subject list"

text \<open>
  The fields \<^verbatim>\<open>Class\<close>, \<^verbatim>\<open>Week\<close> and \<^verbatim>\<open>Days\<close> of \<^verbatim>\<open>Schedule\<close>; the first is
  written \<open>Class'\<close> here, \<open>Class\<close> being a field of \<open>Subject\<close>. A Go map is a partial
  function; a \<open>nil\<close> slice and an empty slice are both the empty list.
\<close>

record Schedule =
  Class' :: string
  Week :: string
  Days :: "string \<rightharpoonup> DaySchedule"

text \<open>
  A slice index \<open>xs[i]\<close> panics out of range: \<open>None\<close> is the run-time panic, and every
  function of the program returns an \<open>option\<close>.
\<close>

definition index :: "'a list \<Rightarrow> nat \<Rightarrow> 'a option" where
  "index xs i = (if i < length xs then Some (xs ! i) else None)"

text \<open>
  The pattern of \<^verbatim>\<open>parseHeader\<close>,
  \<^verbatim>\<open>Tuan\s+(\d+).*lop:\s*([A-Z0-9]+)\<close>, where the source spells the vowel of the first
  word with the two runes U+00E2 (a with circumflex) and U+0300 (combining grave accent),
  and the vowel of the second with the one rune U+1EDB.
\<close>

definition headerRe :: regex where
  "headerRe = Concat (
      ascii ''Tu'' @ [Literal 0xE2, Literal 0x300] @ ascii ''n''
    @ [Plus perlSpace, Capture 1 (Plus digit), Star anyCharNotNL]
    @ ascii ''l'' @ [Literal 0x1EDB] @ ascii ''p:''
    @ [Star perlSpace, Capture 2 (Plus upperDigit)])"

definition parseHeader :: "string \<Rightarrow> (string \<times> string) option" where
  "parseHeader input =
    (let matches = FindStringSubmatch headerRe input in
     if length matches = 3 then do {
       week \<leftarrow> index matches 1;
       className \<leftarrow> index matches 2;
       Some (week, className)
     } else Some ([], []))"

text \<open>
  The loop of \<^verbatim>\<open>splitSubjects\<close> over the lines, with its accumulator \<^verbatim>\<open>result\<close>; the
  loops of the other functions are modelled in the same way.
\<close>

fun splitSubjects_loop :: "string list \<Rightarrow> string list \<Rightarrow> string list" where
  "splitSubjects_loop [] result = result"
| "splitSubjects_loop (l # lines) result =
    (let l' = TrimSpace l in
     if l' \<noteq> [] then splitSubjects_loop lines (result @ [l'])
     else splitSubjects_loop lines result)"

definition splitSubjects :: "string \<Rightarrow> string list" where
  "splitSubjects input =
    (let input' = ReplaceAll input tiet_space tiet_newline;
         lines = Split input' newline
     in splitSubjects_loop lines [])"

text \<open>
  The pattern of \<^verbatim>\<open>parseSubjects\<close>:
  \<^verbatim>\<open>^(.*?)(?:\((\d{2}[A-Z0-9]+)\))?- Nhom: (\d+)- Lop: ([A-Z0-9]+)(?: - nhom \d+)?\<close>
  \<^verbatim>\<open>- Tiet: ([0-9\-]+)- Phong: ([A-Za-z0-9\.]+)- GV: ([^\-]+)- Da hoc: (\d+/\d+)\<close>,
  with the runes U+00F3 in \<open>Nhom\<close>, U+1EDB in \<open>Lop\<close>, U+1EBF in \<open>Tiet\<close>, U+00F2 in
  \<open>Phong\<close>, U+0110 and U+00E3 in \<open>Da\<close>, U+1ECD in \<open>hoc\<close>.
\<close>

definition subjectRe :: regex where
  "subjectRe = Concat (
      [BeginText, Capture 1 (LazyStar anyCharNotNL),
       Quest (Concat (ascii ''('' @ [Capture 2 (Concat [Repeat 2 digit, Plus upperDigit])]
                      @ ascii '')''))]
    @ ascii ''- Nh'' @ [Literal 0xF3] @ ascii ''m: '' @ [Capture 3 (Plus digit)]
    @ ascii ''- L'' @ [Literal 0x1EDB] @ ascii ''p: '' @ [Capture 4 (Plus upperDigit)]
    @ [Quest (Concat (ascii '' - nhom '' @ [Plus digit]))]
    @ ascii ''- Ti'' @ [Literal 0x1EBF] @ ascii ''t: '' @ [Capture 5 (Plus digitDash)]
    @ ascii ''- Ph'' @ [Literal 0xF2] @ ascii ''ng: '' @ [Capture 6 (Plus alnumDot)]
    @ ascii ''- GV: '' @ [Capture 7 (Plus notDash)]
    @ ascii ''- '' @ [Literal 0x110, Literal 0xE3] @ ascii '' h'' @ [Literal 0x1ECD]
    @ ascii ''c: ''
    @ [Capture 8 (Concat ([Plus digit] @ ascii ''/'' @ [Plus digit]))])"

fun parseSubjects_loop :: "string list \<Rightarrow> Subject list \<Rightarrow> Subject list option" where
  "parseSubjects_loop [] subjects = Some subjects"
| "parseSubjects_loop (line # lines) subjects =
    (let m = FindStringSubmatch subjectRe line in
     if length m = 9 then do {
       m1 \<leftarrow> index m 1;
       m3 \<leftarrow> index m 3;
       m4 \<leftarrow> index m 4;
       m5 \<leftarrow> index m 5;
       m6 \<leftarrow> index m 6;
       m7 \<leftarrow> index m 7;
       m8 \<leftarrow> index m 8;
       parseSubjects_loop lines (subjects @ [\<lparr>
         Name = TrimSpace m1,
         Group = m3,
         Class = m4,
         Period = m5,
         Room = m6,
         Teacher = TrimSpace m7,
         Lessons = m8\<rparr>])
     } else parseSubjects_loop lines subjects)"

definition parseSubjects :: "string \<Rightarrow> Subject list option" where
  "parseSubjects input =
    (if Contains input Nghi then Some []
     else parseSubjects_loop (splitSubjects input) [])"

fun parseDay_loop :: "string list \<Rightarrow> DaySchedule \<Rightarrow> DaySchedule option" where
  "parseDay_loop [] day = Some day"
| "parseDay_loop (line # dayLines) day =
    (let line' = TrimSpace line in
     if HasPrefix line' Sang_label then do {
       subjects \<leftarrow> parseSubjects (TrimPrefix line' Sang_label);
       parseDay_loop dayLines (day\<lparr>Sang := subjects\<rparr>)
     } else if HasPrefix line' Chieu_label then do {
       subjects \<leftarrow> parseSubjects (TrimPrefix line' Chieu_label);
       parseDay_loop dayLines (day\<lparr>Chieu := subjects\<rparr>)
     } else if HasPrefix line' Toi_label then do {
       subjects \<leftarrow> parseSubjects (TrimPrefix line' Toi_label);
       parseDay_loop dayLines (day\<lparr>Toi := subjects\<rparr>)
     } else parseDay_loop dayLines day)"

definition parseDay :: "string list \<Rightarrow> DaySchedule option" where
  "parseDay dayLines = parseDay_loop dayLines \<lparr>Sang = [], Chieu = [], Toi = []\<rparr>"

text \<open>The local variables of \<^verbatim>\<open>parseSchedule\<close> that its loop updates.\<close>

record assembler =
  days :: "string \<rightharpoonup> DaySchedule"
  currentDay :: string
  dayLines :: "string list"

text \<open>
  \<^verbatim>\<open>if currentDay != "" { days[currentDay] = parseDay(dayLines) }\<close>, which stands in the
  loop and again after it.
\<close>

definition closeDay :: "assembler \<Rightarrow> (string \<rightharpoonup> DaySchedule) option" where
  "closeDay st =
    (if currentDay st \<noteq> [] then do {
       d \<leftarrow> parseDay (dayLines st);
       Some ((days st)(currentDay st \<mapsto> d))
     } else Some (days st))"

text \<open>
  The test of the loop for a day-header line:
  \<^verbatim>\<open>strings.HasPrefix(line, "Thu") || strings.HasPrefix(line, "Chu nhat")\<close>.
\<close>

definition isDayHeader :: "string \<Rightarrow> bool" where
  "isDayHeader line = (HasPrefix line Thu \<or> HasPrefix line Chu_nhat)"

fun parseSchedule_loop :: "string list \<Rightarrow> assembler \<Rightarrow> assembler option" where
  "parseSchedule_loop [] st = Some st"
| "parseSchedule_loop (line # lines) st =
    (let line' = TrimSpace line in
     if line' = [] then parseSchedule_loop lines st
     else if isDayHeader line' then do {
       days' \<leftarrow> closeDay st;
       parseSchedule_loop lines
         \<lparr>days = days', currentDay = TrimSuffix line' '':'', dayLines = []\<rparr>
     } else parseSchedule_loop lines (st\<lparr>dayLines := dayLines st @ [line']\<rparr>))"

definition parseSchedule :: "string \<Rightarrow> Schedule option" where
  "parseSchedule input = do {
     (week, className) \<leftarrow> parseHeader input;
     st \<leftarrow> parseSchedule_loop (Split input newline)
             \<lparr>days = Map.empty, currentDay = [], dayLines = []\<rparr>;
     days' \<leftarrow> closeDay st;
     Some \<lparr>Class' = className, Week = week, Days = days'\<rparr>
   }"


section \<open>Notions of the specification\<close>

text \<open>
  A fragment matches the subject pattern when \<^verbatim>\<open>FindStringSubmatch\<close> does not return \<open>nil\<close>.
\<close>

definition matchesSubject :: "string \<Rightarrow> bool" where
  "matchesSubject fragment = (FindStringSubmatch subjectRe fragment \<noteq> [])"

text \<open>
  The \<open>Subject\<close> that \<^verbatim>\<open>parseSubjects\<close> builds from the submatches of a fragment.
\<close>

definition subjectOf :: "string \<Rightarrow> Subject" where
  "subjectOf fragment =
    (let m = FindStringSubmatch subjectRe fragment in
     \<lparr>Name = TrimSpace (m ! 1), Group = m ! 3, Class = m ! 4, Period = m ! 5,
      Room = m ! 6, Teacher = TrimSpace (m ! 7), Lessons = m ! 8\<rparr>)"

text \<open>
  The three slots of a day, with the label that routes a line to a slot and the field of
  \<open>DaySchedule\<close> that holds it.
\<close>

datatype slot = Morning | Afternoon | Evening

fun slotLabel :: "slot \<Rightarrow> string" where
  "slotLabel Morning = Sang_label"
| "slotLabel Afternoon = Chieu_label"
| "slotLabel Evening = Toi_label"

fun slotOf :: "slot \<Rightarrow> DaySchedule \<Rightarrow> Subject list" where
  "slotOf Morning day = Sang day"
| "slotOf Afternoon day = Chieu day"
| "slotOf Evening day = Toi day"

text \<open>
  The lines of a document as the assembler sees them: trimmed, the empty ones skipped.
\<close>

definition docLines :: "string \<Rightarrow> string list" where
  "docLines input = filter (\<lambda>l. l \<noteq> []) (map TrimSpace (Split input newline))"

text \<open>
  Following the glossary of the specification: a day block is the run of lines from one
  day-label line up to, and excluding, the next day-label line or the end of input. Each
  block is paired with its label, the header line without one trailing colon.
\<close>

fun dayBlocks :: "string list \<Rightarrow> (string \<times> string list) list" where
  "dayBlocks [] = []"
| "dayBlocks (l # ls) =
    (if isDayHeader l
       then (TrimSuffix l '':'', takeWhile (\<lambda>x. \<not> isDayHeader x) ls) # dayBlocks ls
     else dayBlocks ls)"

text \<open>
  The parsed content of a block (\<^verbatim>\<open>parseDay\<close> never panics, see \<open>parseDay_total\<close>).
\<close>

definition parsedDay :: "string list \<Rightarrow> DaySchedule" where
  "parsedDay ls = the (parseDay ls)"

text \<open>
  The map that records every block under its label, later blocks overwriting earlier ones.
\<close>

definition recorded :: "(string \<times> string list) list \<Rightarrow> (string \<rightharpoonup> DaySchedule)" where
  "recorded blocks = map_of (rev (map (\<lambda>(label, ls). (label, parsedDay ls)) blocks))"

text \<open>
  The blocks the assembler still has to record in a given state: the open day with the
  lines buffered so far and those up to the next header, then the blocks that follow.
\<close>

definition openBlocks :: "assembler \<Rightarrow> string list \<Rightarrow> (string \<times> string list) list" where
  "openBlocks st ls =
    (if currentDay st \<noteq> []
       then [(currentDay st, dayLines st @ takeWhile (\<lambda>x. \<not> isDayHeader x) ls)]
     else []) @ dayBlocks ls"

text \<open>A string that ends in an ASCII byte other than a space.\<close>

definition endsVisible :: "string \<Rightarrow> bool" where
  "endsVisible s = (s \<noteq> [] \<and> (of_char (last s) :: nat) < 0x80 \<and> \<not> asciiSpace (last s))"

text \<open>
  The number of positions of \<open>s\<close> at which \<open>sub\<close> occurs.
\<close>

definition occurrences :: "string \<Rightarrow> string \<Rightarrow> nat" where
  "occurrences s sub = length (filter (\<lambda>i. HasPrefix (drop i s) sub) [0..<Suc (length s)])"

text \<open>
  The part of the header pattern that follows its \<open>.*\<close>:
  \<^verbatim>\<open>lop:\s*([A-Z0-9]+)\<close>.
\<close>

definition headerTailRe :: "regex list" where
  "headerTailRe = ascii ''l'' @ [Literal 0x1EDB] @ ascii ''p:''
    @ [Star perlSpace, Capture 2 (Plus upperDigit)]"

section \<open>Example inputs\<close>

text \<open>
  The slot text of the specification, one subject entry. Without its diacritics:
  \<^verbatim>\<open>Toan - Nhom: 1- Lop: CNTT01- Tiet: 3-5- Phong: A101- GV: Nguyen Van A- Da hoc: 10/30\<close>
\<close>

abbreviation (input) toan_entry :: string where
  "toan_entry \<equiv>
    ''To'' @ [CHR 0xC3, CHR 0xA1] @ ''n - Nh'' @ [CHR 0xC3, CHR 0xB3] @ ''m: 1- L'' @
    [CHR 0xE1, CHR 0xBB, CHR 0x9B] @ ''p: CNTT01- Ti'' @ [CHR 0xE1, CHR 0xBA, CHR 0xBF] @
    ''t: 3-5- Ph'' @ [CHR 0xC3, CHR 0xB2] @ ''ng: A101- GV: Nguyen Van A- '' @
    [CHR 0xC4, CHR 0x90, CHR 0xC3, CHR 0xA3] @ '' h'' @ [CHR 0xE1, CHR 0xBB, CHR 0x8D] @
    ''c: 10/30''"

text \<open>
  A second subject entry. Without its diacritics:
  \<^verbatim>\<open>Vat ly - Nhom: 2- Lop: CNTT02- Tiet: 1-2- Phong: B2.3- GV: Tran Thi B- Da hoc: 4/45\<close>
\<close>

abbreviation (input) vatly_entry :: string where
  "vatly_entry \<equiv>
    ''V'' @ [CHR 0xE1, CHR 0xBA, CHR 0xAD] @ ''t l'' @ [CHR 0xC3, CHR 0xBD] @ '' - Nh'' @
    [CHR 0xC3, CHR 0xB3] @ ''m: 2- L'' @ [CHR 0xE1, CHR 0xBB, CHR 0x9B] @
    ''p: CNTT02- Ti'' @ [CHR 0xE1, CHR 0xBA, CHR 0xBF] @ ''t: 1-2- Ph'' @
    [CHR 0xC3, CHR 0xB2] @ ''ng: B2.3- GV: Tran Thi B- '' @
    [CHR 0xC4, CHR 0x90, CHR 0xC3, CHR 0xA3] @ '' h'' @ [CHR 0xE1, CHR 0xBB, CHR 0x8D] @
    ''c: 4/45''"

text \<open>
  The second entry with its lessons fraction missing. Without its diacritics:
  \<^verbatim>\<open>Vat ly - Nhom: 2- Lop: CNTT02- Tiet: 1-2- Phong: B2.3- GV: Tran Thi B- Da hoc:\<close>
\<close>

abbreviation (input) vatly_no_lessons :: string where
  "vatly_no_lessons \<equiv>
    ''V'' @ [CHR 0xE1, CHR 0xBA, CHR 0xAD] @ ''t l'' @ [CHR 0xC3, CHR 0xBD] @ '' - Nh'' @
    [CHR 0xC3, CHR 0xB3] @ ''m: 2- L'' @ [CHR 0xE1, CHR 0xBB, CHR 0x9B] @
    ''p: CNTT02- Ti'' @ [CHR 0xE1, CHR 0xBA, CHR 0xBF] @ ''t: 1-2- Ph'' @
    [CHR 0xC3, CHR 0xB2] @ ''ng: B2.3- GV: Tran Thi B- '' @
    [CHR 0xC4, CHR 0x90, CHR 0xC3, CHR 0xA3] @ '' h'' @ [CHR 0xE1, CHR 0xBB, CHR 0x8D] @
    ''c:''"

text \<open>The names of the two subjects, \<^verbatim>\<open>Toan\<close> and \<^verbatim>\<open>Vat ly\<close>.\<close>

abbreviation (input) Toan :: string where
  "Toan \<equiv>
    ''To'' @ [CHR 0xC3, CHR 0xA1] @ ''n''"

abbreviation (input) Vat_ly :: string where
  "Vat_ly \<equiv>
    ''V'' @ [CHR 0xE1, CHR 0xBA, CHR 0xAD] @ ''t l'' @ [CHR 0xC3, CHR 0xBD]"

abbreviation (input) toan_subject :: Subject where
  "toan_subject \<equiv>
    \<lparr>Name = Toan, Group = ''1'', Class = ''CNTT01'', Period = ''3-5'', Room = ''A101'',
     Teacher = ''Nguyen Van A'', Lessons = ''10/30''\<rparr>"

abbreviation (input) vatly_subject :: Subject where
  "vatly_subject \<equiv>
    \<lparr>Name = Vat_ly, Group = ''2'', Class = ''CNTT02'', Period = ''1-2'', Room = ''B2.3'',
     Teacher = ''Tran Thi B'', Lessons = ''4/45''\<rparr>"

text \<open>
  The header line of the specification, \<^verbatim>\<open>Tuan 5 ... lop: CNTT01\<close>, in two spellings of
  its first word: with the one rune U+1EA7 (a with circumflex and grave, bytes E1 BA A7), as
  the specification writes it, and with the two runes U+00E2 U+0300 (a with circumflex, then
  a combining grave accent, bytes C3 A2 CC 80), as the pattern of \<^verbatim>\<open>parseHeader\<close>
  writes it.
\<close>

abbreviation (input) Tuan_precomposed :: string where
  "Tuan_precomposed \<equiv>
    ''Tu'' @ [CHR 0xE1, CHR 0xBA, CHR 0xA7] @ ''n''"

abbreviation (input) Tuan_source :: string where
  "Tuan_source \<equiv>
    ''Tu'' @ [CHR 0xC3, CHR 0xA2, CHR 0xCC, CHR 0x80] @ ''n''"

abbreviation (input) lop_colon :: string where \<comment> \<open>\<^verbatim>\<open>lop:\<close> with U+1EDB for the o\<close>
  "lop_colon \<equiv>
    ''l'' @ [CHR 0xE1, CHR 0xBB, CHR 0x9B] @ ''p:''"

abbreviation (input) header_precomposed :: string where
  "header_precomposed \<equiv> Tuan_precomposed @ '' 5 ... '' @ lop_colon @ '' CNTT01''"

abbreviation (input) header_source :: string where
  "header_source \<equiv> Tuan_source @ '' 5 ... '' @ lop_colon @ '' CNTT01''"

section \<open>Properties of the library functions and of the loops\<close>

subsection \<open>Index and Contains\<close>

lemma HasPrefix_append [simp]: "HasPrefix (p @ s) p"
  by (simp add: HasPrefix_def)

lemma HasPrefix_iff: "HasPrefix s p \<longleftrightarrow> (\<exists>t. s = p @ t)"
proof
  assume "HasPrefix s p"
  then have "s = p @ drop (length p) s"
    by (metis HasPrefix_def append_take_drop_id)
  then show "\<exists>t. s = p @ t" ..
next
  assume "\<exists>t. s = p @ t"
  then show "HasPrefix s p" by auto
qed

lemma Index_HasPrefix: "HasPrefix s sub \<Longrightarrow> Index s sub = Some 0"
  by (cases s) (auto simp: HasPrefix_def)

lemma Index_append_sub: "\<exists>j. Index (pre @ sub @ post) sub = Some j"
proof (induction pre)
  case Nil
  show ?case by (simp add: Index_HasPrefix)
next
  case (Cons c pre)
  then show ?case by auto
qed

lemma Index_Some_split:
  "Index s sub = Some j \<Longrightarrow> s = take j s @ sub @ drop (j + length sub) s"
proof (induction s arbitrary: j)
  case Nil
  then show ?case by (simp split: if_splits)
next
  case (Cons c cs)
  show ?case
  proof (cases "HasPrefix (c # cs) sub")
    case True
    then have j: "j = 0" using Cons.prems by simp
    from True obtain t where "c # cs = sub @ t" by (auto simp: HasPrefix_iff)
    then show ?thesis by (simp add: j)
  next
    case False
    with Cons.prems obtain k where k: "Index cs sub = Some k" "j = Suc k" by auto
    from Cons.IH [OF k(1)] show ?thesis by (simp add: k(2))
  qed
qed

lemma Contains_iff: "Contains s sub \<longleftrightarrow> (\<exists>pre post. s = pre @ sub @ post)"
proof
  assume "Contains s sub"
  then obtain j where "Index s sub = Some j" by (auto simp: Contains_def)
  from Index_Some_split [OF this] show "\<exists>pre post. s = pre @ sub @ post" by blast
next
  assume "\<exists>pre post. s = pre @ sub @ post"
  then show "Contains s sub" using Index_append_sub by (fastforce simp: Contains_def)
qed

subsection \<open>The subject loop, and that nothing panics\<close>

lemma index_Some: "i < length xs \<Longrightarrow> index xs i = Some (xs ! i)"
  by (simp add: index_def)

lemma FindStringSubmatch_length:
  "FindStringSubmatch re s = [] \<or> length (FindStringSubmatch re s) = 1 + MaxCap re"
  by (simp add: FindStringSubmatch_def split: option.split)

lemma MaxCap_subjectRe: "MaxCap subjectRe = 8"
  by (simp add: subjectRe_def ascii_def)

lemma MaxCap_headerRe: "MaxCap headerRe = 2"
  by (simp add: headerRe_def ascii_def)

lemma matchesSubject_length:
  "matchesSubject l \<longleftrightarrow> length (FindStringSubmatch subjectRe l) = 9"
  using FindStringSubmatch_length [of subjectRe l]
  by (auto simp: matchesSubject_def MaxCap_subjectRe)

lemma parseSubjects_loop_eq:
  "parseSubjects_loop ls acc = Some (acc @ map subjectOf (filter matchesSubject ls))"
proof (induction ls arbitrary: acc)
  case Nil
  show ?case by simp
next
  case (Cons l ls)
  show ?case
  proof (cases "matchesSubject l")
    case True
    then have len: "length (FindStringSubmatch subjectRe l) = 9"
      by (simp add: matchesSubject_length)
    then show ?thesis
      using True by (simp add: Cons.IH index_Some subjectOf_def Let_def)
  next
    case False
    then have "length (FindStringSubmatch subjectRe l) \<noteq> 9"
      by (simp add: matchesSubject_length)
    then show ?thesis
      using False by (simp add: Cons.IH)
  qed
qed

lemma parseSubjects_total: "\<exists>subjects. parseSubjects input = Some subjects"
  by (simp add: parseSubjects_def parseSubjects_loop_eq)

lemma parseHeader_total: "\<exists>week className. parseHeader input = Some (week, className)"
  by (simp add: parseHeader_def Let_def index_Some)

lemma parseDay_loop_total: "\<exists>d. parseDay_loop ls day = Some d"
proof (induction ls arbitrary: day)
  case Nil
  show ?case by simp
next
  case (Cons l ls)
  obtain s1 s2 s3 where
    "parseSubjects (TrimPrefix (TrimSpace l) Sang_label) = Some s1"
    "parseSubjects (TrimPrefix (TrimSpace l) Chieu_label) = Some s2"
    "parseSubjects (TrimPrefix (TrimSpace l) Toi_label) = Some s3"
    using parseSubjects_total by metis
  then show ?case
    using Cons.IH by (simp add: Let_def)
qed

lemma parseDay_total: "\<exists>d. parseDay ls = Some d"
  by (simp add: parseDay_def parseDay_loop_total)

lemma closeDay_total: "\<exists>m. closeDay st = Some m"
proof -
  obtain d where "parseDay (dayLines st) = Some d"
    using parseDay_total by blast
  then show ?thesis by (simp add: closeDay_def)
qed

lemma parseSchedule_loop_total: "\<exists>st'. parseSchedule_loop ls st = Some st'"
proof (induction ls arbitrary: st)
  case Nil
  show ?case by simp
next
  case (Cons l ls)
  obtain m where "closeDay st = Some m"
    using closeDay_total by blast
  then show ?case
    using Cons.IH by (simp add: Let_def)
qed

subsection \<open>The day parser\<close>

lemma slotLabel_distinct:
  "HasPrefix x (slotLabel k) \<Longrightarrow> HasPrefix x (slotLabel k') \<Longrightarrow> k = k'"
  by (cases k; cases k') (auto simp: HasPrefix_iff)

lemma parseDay_loop_step:
  assumes "HasPrefix (TrimSpace l) (slotLabel k)"
    and "parseSubjects (TrimPrefix (TrimSpace l) (slotLabel k)) = Some subjects"
  shows "\<exists>day'. parseDay_loop (l # ls) day = parseDay_loop ls day' \<and> slotOf k day' = subjects"
proof (cases k)
  case Morning
  with assms show ?thesis by (auto simp: Let_def)
next
  case Afternoon
  with assms(1) have "\<not> HasPrefix (TrimSpace l) Sang_label"
    using slotLabel_distinct [of "TrimSpace l" Afternoon Morning] by auto
  with Afternoon assms show ?thesis by (auto simp: Let_def)
next
  case Evening
  with assms(1) have "\<not> HasPrefix (TrimSpace l) Sang_label" "\<not> HasPrefix (TrimSpace l) Chieu_label"
    using slotLabel_distinct [of "TrimSpace l" Evening Morning]
      slotLabel_distinct [of "TrimSpace l" Evening Afternoon] by auto
  with Evening assms show ?thesis by (auto simp: Let_def)
qed

lemma parseDay_loop_keeps_slot:
  "\<forall>l \<in> set ls. \<not> HasPrefix (TrimSpace l) (slotLabel k) \<Longrightarrow>
    parseDay_loop ls day = Some day' \<Longrightarrow> slotOf k day' = slotOf k day"
proof (induction ls arbitrary: day)
  case Nil
  then show ?case by simp
next
  case (Cons l ls)
  from Cons.prems(1) have no: "\<not> HasPrefix (TrimSpace l) (slotLabel k)"
    and rest: "\<forall>l \<in> set ls. \<not> HasPrefix (TrimSpace l) (slotLabel k)" by auto
  obtain s1 s2 s3 where ps:
    "parseSubjects (TrimPrefix (TrimSpace l) Sang_label) = Some s1"
    "parseSubjects (TrimPrefix (TrimSpace l) Chieu_label) = Some s2"
    "parseSubjects (TrimPrefix (TrimSpace l) Toi_label) = Some s3"
    using parseSubjects_total by metis
  from Cons.prems(2) obtain day1 where
    d1: "parseDay_loop ls day1 = Some day'" and k1: "slotOf k day1 = slotOf k day"
    using no ps by (cases k) (auto simp: Let_def split: if_splits)
  from Cons.IH [OF rest d1] k1 show ?case by simp
qed

lemma parseDay_loop_append:
  "parseDay_loop (xs @ ys) day = parseDay_loop xs day \<bind> parseDay_loop ys"
proof (induction xs arbitrary: day)
  case Nil
  show ?case by simp
next
  case (Cons l xs)
  obtain s1 s2 s3 where ps:
    "parseSubjects (TrimPrefix (TrimSpace l) Sang_label) = Some s1"
    "parseSubjects (TrimPrefix (TrimSpace l) Chieu_label) = Some s2"
    "parseSubjects (TrimPrefix (TrimSpace l) Toi_label) = Some s3"
    using parseSubjects_total by metis
  show ?case by (simp add: Let_def ps Cons.IH)
qed

subsection \<open>The schedule assembler\<close>

lemma parseDay_parsedDay: "parseDay ls = Some (parsedDay ls)"
  using parseDay_total [of ls] by (auto simp: parsedDay_def)

lemma closeDay_eq:
  "closeDay st = Some (if currentDay st \<noteq> []
     then (days st)(currentDay st \<mapsto> parsedDay (dayLines st)) else days st)"
  by (simp add: closeDay_def parseDay_parsedDay)

lemma recorded_append: "recorded (xs @ ys) = recorded xs ++ recorded ys"
  by (simp add: recorded_def)

lemma recorded_single: "m ++ recorded [(label, ls)] = m(label \<mapsto> parsedDay ls)"
  by (simp add: recorded_def)

lemma recorded_Nil: "recorded [] = Map.empty"
  by (simp add: recorded_def)

lemma day_label_not_empty: "isDayHeader l \<Longrightarrow> TrimSuffix l '':'' \<noteq> []"
  by (auto simp: isDayHeader_def HasPrefix_iff TrimSuffix_def)

lemma parseSchedule_loop_days:
  "parseSchedule_loop ls st = Some st' \<Longrightarrow>
    closeDay st' = Some (days st ++ recorded
      (openBlocks st (filter (\<lambda>l. l \<noteq> []) (map TrimSpace ls))))"
proof (induction ls arbitrary: st)
  case Nil
  then show ?case
    by (simp add: closeDay_eq openBlocks_def recorded_single recorded_Nil)
next
  case (Cons l ls)
  let ?t = "TrimSpace l"
  let ?rest = "filter (\<lambda>l. l \<noteq> []) (map TrimSpace ls)"
  show ?case
  proof (cases "?t = []")
    case True
    with Cons.prems have "parseSchedule_loop ls st = Some st'" by simp
    from Cons.IH [OF this] True show ?thesis by simp
  next
    case False
    show ?thesis
    proof (cases "isDayHeader ?t")
      case True
      define st1 where "st1 = \<lparr>days = (if currentDay st \<noteq> []
          then (days st)(currentDay st \<mapsto> parsedDay (dayLines st)) else days st),
        currentDay = TrimSuffix ?t '':'', dayLines = []\<rparr>"
      from Cons.prems False True have "parseSchedule_loop ls st1 = Some st'"
        by (simp add: closeDay_eq st1_def)
      from Cons.IH [OF this]
      have "closeDay st' = Some (days st1 ++ recorded (openBlocks st1 ?rest))" .
      moreover have "openBlocks st1 ?rest
          = (TrimSuffix ?t '':'', takeWhile (\<lambda>x. \<not> isDayHeader x) ?rest) # dayBlocks ?rest"
        using day_label_not_empty [OF True] by (simp add: openBlocks_def st1_def)
      moreover have "days st1 = days st ++ recorded
          (if currentDay st \<noteq> [] then [(currentDay st, dayLines st)] else [])"
        by (simp add: st1_def recorded_single recorded_Nil)
      moreover have "openBlocks st (filter (\<lambda>l. l \<noteq> []) (map TrimSpace (l # ls)))
          = (if currentDay st \<noteq> [] then [(currentDay st, dayLines st)] else [])
            @ [(TrimSuffix ?t '':'', takeWhile (\<lambda>x. \<not> isDayHeader x) ?rest)] @ dayBlocks ?rest"
        using False True by (simp add: openBlocks_def)
      ultimately show ?thesis
        by (simp only: recorded_append map_add_assoc append_Cons append_Nil)
    next
      case notHeader: False
      define st1 where "st1 = st\<lparr>dayLines := dayLines st @ [?t]\<rparr>"
      from Cons.prems False notHeader have "parseSchedule_loop ls st1 = Some st'"
        by (simp add: st1_def)
      from Cons.IH [OF this]
      have "closeDay st' = Some (days st1 ++ recorded (openBlocks st1 ?rest))" .
      moreover have "openBlocks st1 ?rest
          = openBlocks st (filter (\<lambda>l. l \<noteq> []) (map TrimSpace (l # ls)))"
        using False notHeader by (simp add: openBlocks_def st1_def)
      moreover have "days st1 = days st" by (simp add: st1_def)
      ultimately show ?thesis by simp
    qed
  qed
qed

lemma parseSchedule_Days:
  "\<exists>schedule. parseSchedule input = Some schedule
     \<and> Days schedule = recorded (dayBlocks (docLines input))"
proof -
  let ?st0 = "\<lparr>days = Map.empty, currentDay = [], dayLines = []\<rparr>"
  obtain week className where h: "parseHeader input = Some (week, className)"
    using parseHeader_total by blast
  obtain st where l: "parseSchedule_loop (Split input newline) ?st0 = Some st"
    using parseSchedule_loop_total by blast
  from parseSchedule_loop_days [OF l]
  have c: "closeDay st = Some (recorded (dayBlocks (docLines input)))"
    by (simp add: openBlocks_def docLines_def)
  show ?thesis
    by (simp add: parseSchedule_def h l c)
qed

lemma recorded_last:
  "label \<notin> fst ` set bs2 \<Longrightarrow> recorded (bs1 @ (label, ls) # bs2) label = Some (parsedDay ls)"
proof -
  assume "label \<notin> fst ` set bs2"
  then have "recorded bs2 label = None"
    by (force simp: recorded_def map_of_eq_None_iff)
  then show ?thesis
    using recorded_append [of bs1 "(label, ls) # bs2"] recorded_append [of "[(label, ls)]" bs2]
    by (simp add: map_add_def recorded_def)
qed

subsection \<open>Split on a one-byte separator\<close>

lemma HasPrefix_single: "HasPrefix (x # xs) [c] \<longleftrightarrow> x = c"
  by (simp add: HasPrefix_def)

lemma genSplit_Nil: "genSplit [] [c] = [[]]"
  by (simp add: genSplit.simps)

lemma Index_single_None: "Index s [c] = None \<longleftrightarrow> c \<notin> set s"
  by (induction s) (auto simp: HasPrefix_single)

lemma genSplit_no_sep: "c \<notin> set s \<Longrightarrow> genSplit s [c] = [s]"
proof -
  assume "c \<notin> set s"
  then have "Index s [c] = None" by (simp add: Index_single_None)
  then show ?thesis by (subst genSplit.simps) simp
qed

lemma genSplit_not_Nil: "genSplit s [c] \<noteq> []"
  by (subst genSplit.simps) (simp split: option.split)

lemma genSplit_Cons:
  "genSplit (x # xs) [c] =
    (if x = c then [] # genSplit xs [c]
     else (x # hd (genSplit xs [c])) # tl (genSplit xs [c]))"
proof (cases "x = c")
  case True
  then show ?thesis
    by (subst genSplit.simps) (simp add: HasPrefix_single)
next
  case False
  show ?thesis
  proof (cases "Index xs [c]")
    case None
    then have "genSplit xs [c] = [xs]" "genSplit (x # xs) [c] = [x # xs]"
      using False by (simp_all add: genSplit.simps [of xs] genSplit.simps [of "x # xs"] HasPrefix_single)
    with False show ?thesis by simp
  next
    case (Some j)
    then have "genSplit xs [c] = take j xs # genSplit (drop (j + 1) xs) [c]"
      "genSplit (x # xs) [c] = (x # take j xs) # genSplit (drop (j + 1) xs) [c]"
      using False by (simp_all add: genSplit.simps [of xs] genSplit.simps [of "x # xs"] HasPrefix_single)
    with False show ?thesis by simp
  qed
qed

lemma genSplit_append: "genSplit (p @ c # r) [c] = genSplit p [c] @ genSplit r [c]"
proof (induction p)
  case Nil
  show ?case by (simp add: genSplit_Cons genSplit_Nil)
next
  case (Cons x p)
  obtain q qs where q: "genSplit p [c] = q # qs"
    using genSplit_not_Nil [of p c] by (cases "genSplit p [c]") auto
  show ?case
    by (simp add: genSplit_Cons [of x] Cons.IH q)
qed

lemma Split_newline_append:
  "Split (p @ newline @ r) newline = Split p newline @ Split r newline"
  by (simp add: Split_def genSplit_append)

lemma docLines_append: "docLines (p @ newline @ r) = docLines p @ docLines r"
  unfolding docLines_def Split_newline_append by simp

lemma dayBlocks_skip:
  "\<forall>l \<in> set xs. \<not> isDayHeader l \<Longrightarrow> dayBlocks (xs @ ys) = dayBlocks ys"
  by (induction xs) auto

subsection \<open>The splitter without a delimiter\<close>

lemma Index_None_replaceLoop: "Index s old = None \<Longrightarrow> replaceLoop s old new = s"
  by (subst replaceLoop.simps) simp

lemma ReplaceAll_not_Contains:
  "\<not> Contains s tiet_space \<Longrightarrow> ReplaceAll s tiet_space tiet_newline = s"
  by (simp add: ReplaceAll_def Contains_def Index_None_replaceLoop)

lemma splitSubjects_loop_no_empty:
  "[] \<notin> set acc \<Longrightarrow> [] \<notin> set (splitSubjects_loop ls acc)"
  by (induction ls arbitrary: acc) (auto simp: Let_def)

lemma splitSubjects_no_empty: "[] \<notin> set (splitSubjects input)"
  by (simp add: splitSubjects_def splitSubjects_loop_no_empty)

subsection \<open>Runes in front of an ASCII byte\<close>

text \<open>
  A multi-byte decoding never takes an ASCII byte: what is decoded in front of an ASCII byte
  does not depend on what follows that byte.
\<close>

lemma DecodeRuneInString_ascii:
  "(of_char c :: nat) < 0x80 \<Longrightarrow> DecodeRuneInString (c # s) = (of_char c, 1)"
  by (simp add: DecodeRuneInString_def)

lemma DecodeRuneInString_before_ascii:
  assumes "m \<noteq> []" and "(of_char c :: nat) < 0x80"
  shows "DecodeRuneInString (m @ c # t) = DecodeRuneInString m"
proof -
  from assms(1) obtain c0 m' where m: "m = c0 # m'" by (cases m) auto
  consider (1) "m' = []" | (2) b1 where "m' = [b1]" | (3) b1 b2 where "m' = [b1, b2]"
    | (4) b1 b2 b3 m'' where "m' = b1 # b2 # b3 # m''"
    by (cases m'; cases "tl m'"; cases "tl (tl m')") auto
  then show ?thesis
  proof cases
    case 1
    with m assms(2) show ?thesis by (simp add: DecodeRuneInString_def Let_def)
  next
    case 2
    with m assms(2) show ?thesis by (simp add: DecodeRuneInString_def Let_def)
  next
    case 3
    with m assms(2) show ?thesis by (simp add: DecodeRuneInString_def Let_def)
  next
    case 4
    with m assms(2) show ?thesis by (simp add: DecodeRuneInString_def Let_def)
  qed
qed

lemma IsSpace_ascii: "(of_char c :: nat) < 0x80 \<Longrightarrow> IsSpace (of_char c) = asciiSpace c"
  by (auto simp: IsSpace_def asciiSpace_def)

subsection \<open>TrimSpace of a string that ends in a visible ASCII byte\<close>

lemma endsVisible_rune_inside:
  assumes "endsVisible s" and "IsSpace (fst (DecodeRuneInString s))"
  shows "snd (DecodeRuneInString s) < length s"
proof -
  from assms(1) obtain m c where s: "s = m @ [c]" and c: "(of_char c :: nat) < 0x80" "\<not> asciiSpace c"
    by (cases s rule: rev_cases) (auto simp: endsVisible_def)
  show ?thesis
  proof (cases "m = []")
    case True
    with s c assms(2) show ?thesis
      by (simp add: DecodeRuneInString_ascii IsSpace_ascii)
  next
    case False
    then have "DecodeRuneInString s = DecodeRuneInString m"
      using DecodeRuneInString_before_ascii [OF False c(1), of "[]"] s by simp
    moreover have "snd (DecodeRuneInString m) \<le> length m"
      using DecodeRuneInString_width [OF False] by simp
    ultimately show ?thesis using s by simp
  qed
qed

lemma endsVisible_rune_append:
  assumes "endsVisible s"
  shows "DecodeRuneInString (s @ t) = DecodeRuneInString s"
proof -
  from assms obtain m c where s: "s = m @ [c]" and c: "(of_char c :: nat) < 0x80"
    by (cases s rule: rev_cases) (auto simp: endsVisible_def)
  show ?thesis
  proof (cases "m = []")
    case True
    with s c show ?thesis by (simp add: DecodeRuneInString_ascii)
  next
    case False
    from DecodeRuneInString_before_ascii [OF False c, of t]
         DecodeRuneInString_before_ascii [OF False c, of "[]"] s
    show ?thesis by simp
  qed
qed

lemma endsVisible_drop: "endsVisible s \<Longrightarrow> n < length s \<Longrightarrow> endsVisible (drop n s)"
  by (simp add: endsVisible_def)

lemma TrimLeftFunc_endsVisible:
  "endsVisible s \<Longrightarrow> endsVisible (TrimLeftFunc IsSpace s)"
proof (induction "length s" arbitrary: s rule: less_induct)
  case less
  from less.prems have ne: "s \<noteq> []" by (simp add: endsVisible_def)
  show ?case
  proof (cases "IsSpace (fst (DecodeRuneInString s))")
    case True
    let ?w = "snd (DecodeRuneInString s)"
    from endsVisible_rune_inside [OF less.prems True] have w: "?w < length s" .
    have "1 \<le> ?w" using DecodeRuneInString_width [OF ne] by simp
    with w have "length (drop ?w s) < length s" by simp
    from less.hyps [OF this endsVisible_drop [OF less.prems w]]
    show ?thesis
      using ne True by (subst TrimLeftFunc.simps) simp
  next
    case False
    with ne less.prems show ?thesis by (subst TrimLeftFunc.simps) simp
  qed
qed

lemma TrimLeftFunc_append:
  "endsVisible s \<Longrightarrow> TrimLeftFunc IsSpace (s @ t) = TrimLeftFunc IsSpace s @ t"
proof (induction "length s" arbitrary: s rule: less_induct)
  case less
  from less.prems have ne: "s \<noteq> []" by (simp add: endsVisible_def)
  note d = endsVisible_rune_append [OF less.prems, of t]
  show ?case
  proof (cases "IsSpace (fst (DecodeRuneInString s))")
    case True
    let ?w = "snd (DecodeRuneInString s)"
    from endsVisible_rune_inside [OF less.prems True] have w: "?w < length s" .
    have "1 \<le> ?w" using DecodeRuneInString_width [OF ne] by simp
    with w have "length (drop ?w s) < length s" by simp
    from less.hyps [OF this endsVisible_drop [OF less.prems w]]
    have "TrimLeftFunc IsSpace (drop ?w s @ t) = TrimLeftFunc IsSpace (drop ?w s) @ t" .
    moreover have "drop ?w (s @ t) = drop ?w s @ t" using w by simp
    ultimately show ?thesis
      using ne True d
      by (subst TrimLeftFunc.simps, subst (2) TrimLeftFunc.simps) simp
  next
    case False
    with ne d show ?thesis
      by (subst TrimLeftFunc.simps, subst (2) TrimLeftFunc.simps) simp
  qed
qed

lemma DecodeLastRuneInString_ascii:
  "(of_char c :: nat) < 0x80 \<Longrightarrow> DecodeLastRuneInString (s @ [c]) = (of_char c, 1)"
  by (simp add: DecodeLastRuneInString_def RuneSelf_def Let_def nat_add_distrib)

lemma lastIndexFunc_endsVisible:
  assumes "endsVisible s"
  shows "lastIndexFunc IsSpace s = Some (length s - 1)"
proof -
  from assms obtain m c where s: "s = m @ [c]" and c: "(of_char c :: nat) < 0x80" "\<not> asciiSpace c"
    by (cases s rule: rev_cases) (auto simp: endsVisible_def)
  show ?thesis
    unfolding s
    by (subst lastIndexFunc.simps) (simp add: DecodeLastRuneInString_ascii c IsSpace_ascii)
qed

lemma TrimRightFunc_endsVisible: "endsVisible s \<Longrightarrow> TrimRightFunc IsSpace s = s"
proof -
  assume a: "endsVisible s"
  then obtain m c where s: "s = m @ [c]" and c: "(of_char c :: nat) < 0x80"
    by (cases s rule: rev_cases) (auto simp: endsVisible_def)
  from lastIndexFunc_endsVisible [OF a]
  have "lastIndexFunc IsSpace (m @ [c]) = Some (length m)" by (simp add: s)
  then show ?thesis
    using c by (simp add: TrimRightFunc_def RuneSelf_def s)
qed

lemma TrimRightFunc_endsVisible_space:
  assumes "endsVisible s"
  shows "TrimRightFunc IsSpace (s @ '' '') = s"
proof -
  from assms obtain m c where s: "s = m @ [c]" and c: "(of_char c :: nat) < 0x80"
    by (cases s rule: rev_cases) (auto simp: endsVisible_def)
  have "DecodeLastRuneInString (s @ '' '') = (0x20, 1)"
    using DecodeLastRuneInString_ascii [of "CHR '' ''" s] by simp
  then have "lastIndexFunc IsSpace (s @ '' '') = lastIndexFunc IsSpace s"
    by (subst lastIndexFunc.simps) (simp add: IsSpace_def)
  then have "lastIndexFunc IsSpace (m @ [c, CHR '' '']) = Some (length m)"
    using lastIndexFunc_endsVisible [OF assms] by (simp add: s)
  then show ?thesis
    using c by (simp add: TrimRightFunc_def RuneSelf_def s nth_append)
qed

lemma dropWhile_endsVisible:
  "endsVisible s \<Longrightarrow> endsVisible (dropWhile asciiSpace s)"
proof -
  assume "endsVisible s"
  then obtain m c where s: "s = m @ [c]" and c: "(of_char c :: nat) < 0x80" "\<not> asciiSpace c"
    by (cases s rule: rev_cases) (auto simp: endsVisible_def)
  have "dropWhile asciiSpace (m @ [c]) = dropWhile asciiSpace m @ [c]"
    by (induction m) (auto simp: c)
  then show ?thesis using c by (simp add: s endsVisible_def)
qed

lemma dropWhile_append_space:
  "endsVisible s \<Longrightarrow> dropWhile asciiSpace (s @ t) = dropWhile asciiSpace s @ t"
proof -
  assume "endsVisible s"
  then have "last s \<in> set s" "\<not> asciiSpace (last s)"
    by (auto simp: endsVisible_def)
  then show ?thesis by (intro dropWhile_append1) auto
qed

lemma rev_dropWhile_endsVisible:
  "endsVisible s \<Longrightarrow> rev (dropWhile asciiSpace (rev s)) = s"
  by (cases s rule: rev_cases) (auto simp: endsVisible_def)

lemma rev_dropWhile_endsVisible_space:
  "endsVisible s \<Longrightarrow> rev (dropWhile asciiSpace (rev (s @ '' ''))) = s"
  by (cases s rule: rev_cases) (auto simp: endsVisible_def asciiSpace_def)

text \<open>What \<open>TrimSpace\<close> returns for a string that ends in a visible ASCII byte.\<close>

lemma TrimSpace_endsVisible:
  assumes "endsVisible s"
  shows "TrimSpace s =
    (if (of_char (hd (dropWhile asciiSpace s)) :: nat) \<ge> RuneSelf
       then TrimLeftFunc IsSpace (dropWhile asciiSpace s)
     else dropWhile asciiSpace s)"
proof -
  let ?s1 = "dropWhile asciiSpace s"
  have e1: "endsVisible ?s1" by (rule dropWhile_endsVisible [OF assms])
  then obtain c cs where s1: "?s1 = c # cs" by (cases ?s1) (auto simp: endsVisible_def)
  have l: "(of_char (last ?s1) :: nat) < RuneSelf"
    using e1 by (simp add: endsVisible_def RuneSelf_def)
  show ?thesis
  proof (cases "(of_char c :: nat) \<ge> RuneSelf")
    case True
    have "TrimFunc IsSpace ?s1 = TrimLeftFunc IsSpace ?s1"
      by (simp add: TrimFunc_def TrimRightFunc_endsVisible [OF TrimLeftFunc_endsVisible [OF e1]])
    with True s1 show ?thesis by (simp add: TrimSpace_def)
  next
    case False
    with s1 l rev_dropWhile_endsVisible [OF e1] show ?thesis
      by (simp add: TrimSpace_def Let_def)
  qed
qed

lemma TrimSpace_endsVisible_space:
  assumes "endsVisible s"
  shows "TrimSpace (s @ '' '') = TrimSpace s"
proof -
  let ?s1 = "dropWhile asciiSpace s"
  have e1: "endsVisible ?s1" by (rule dropWhile_endsVisible [OF assms])
  then obtain c cs where s1: "?s1 = c # cs" by (cases ?s1) (auto simp: endsVisible_def)
  have d: "dropWhile asciiSpace (s @ '' '') = ?s1 @ '' ''"
    by (rule dropWhile_append_space [OF assms])
  show ?thesis
  proof (cases "(of_char c :: nat) \<ge> RuneSelf")
    case True
    have "TrimFunc IsSpace (?s1 @ '' '') = TrimLeftFunc IsSpace ?s1"
      by (simp only: TrimFunc_def TrimLeftFunc_append [OF e1]
            TrimRightFunc_endsVisible_space [OF TrimLeftFunc_endsVisible [OF e1]])
    with True s1 TrimSpace_endsVisible [OF assms] show ?thesis
      by (simp add: TrimSpace_def d)
  next
    case False
    have "rev (dropWhile asciiSpace (rev (?s1 @ '' ''))) = ?s1"
      by (rule rev_dropWhile_endsVisible_space [OF e1])
    moreover have "(of_char (last ?s1) :: nat) < RuneSelf"
      using e1 by (simp add: endsVisible_def RuneSelf_def)
    ultimately show ?thesis
      using False s1 TrimSpace_endsVisible [OF assms]
      by (simp add: TrimSpace_def d Let_def)
  qed
qed

lemma TrimSpace_endsVisible_not_empty: "endsVisible s \<Longrightarrow> TrimSpace s \<noteq> []"
proof -
  assume a: "endsVisible s"
  have "endsVisible (dropWhile asciiSpace s)" by (rule dropWhile_endsVisible [OF a])
  moreover from this have "endsVisible (TrimLeftFunc IsSpace (dropWhile asciiSpace s))"
    by (rule TrimLeftFunc_endsVisible)
  ultimately show ?thesis
    by (auto simp: TrimSpace_endsVisible [OF a] endsVisible_def)
qed

subsection \<open>The delimiter at the end of an entry\<close>

lemma HasPrefix_append_long:
  "length sub \<le> length u \<Longrightarrow> HasPrefix (u @ rest) sub \<longleftrightarrow> HasPrefix u sub"
  by (auto simp: HasPrefix_def)

lemma occurrences_once:
  assumes "occurrences (a @ sub) sub = 1" and "i < length a"
  shows "\<not> HasPrefix (drop i (a @ sub)) sub"
proof
  assume h: "HasPrefix (drop i (a @ sub)) sub"
  let ?P = "\<lambda>i. HasPrefix (drop i (a @ sub)) sub"
  let ?xs = "[0..<Suc (length (a @ sub))]"
  have "?P (length a)" by (simp add: HasPrefix_def)
  with h assms(2) have "{i, length a} \<subseteq> {x. ?P x} \<inter> set ?xs" by auto
  moreover have "card {i, length a} = 2" using assms(2) by simp
  moreover have "finite ({x. ?P x} \<inter> set ?xs)" by simp
  ultimately have "2 \<le> card ({x. ?P x} \<inter> set ?xs)"
    by (metis card_mono)
  moreover have "length (filter ?P ?xs) = card ({x. ?P x} \<inter> set ?xs)"
    by (subst distinct_length_filter) simp_all
  ultimately show False using assms(1) by (simp add: occurrences_def)
qed

lemma Index_first_occurrence:
  assumes "\<forall>i < length a. \<not> HasPrefix (drop i (a @ sub)) sub" and "sub \<noteq> []"
  shows "Index (a @ sub @ rest) sub = Some (length a)"
  using assms(1)
proof (induction a)
  case Nil
  show ?case by (simp add: Index_HasPrefix)
next
  case (Cons x a)
  from Cons.prems have "\<not> HasPrefix ((x # a) @ sub) sub" by force
  then have n: "\<not> HasPrefix (x # a @ sub @ rest) sub"
    using HasPrefix_append_long [of sub "(x # a) @ sub" rest] by simp
  from Cons.prems have "\<forall>i < length a. \<not> HasPrefix (drop i (a @ sub)) sub" by force
  from Cons.IH [OF this] n show ?case by simp
qed

lemma replaceLoop_first:
  assumes "Index s old = Some j" and "old \<noteq> []"
  shows "replaceLoop s old new = take j s @ new @ replaceLoop (drop (j + length old) s) old new"
  using assms by (subst replaceLoop.simps) simp

lemma replaceLoop_Nil: "old \<noteq> [] \<Longrightarrow> replaceLoop [] old new = []"
  by (subst replaceLoop.simps) simp

lemma replaceLoop_entry:
  assumes "occurrences (a @ sub) sub = 1" and "sub \<noteq> []"
  shows "replaceLoop (a @ sub @ rest) sub new = a @ new @ replaceLoop rest sub new"
proof -
  have "Index (a @ sub @ rest) sub = Some (length a)"
    using occurrences_once [OF assms(1)] assms(2) by (intro Index_first_occurrence) auto
  from replaceLoop_first [OF this assms(2)] show ?thesis by simp
qed

lemma genSplit_two:
  "c \<notin> set p \<Longrightarrow> c \<notin> set q \<Longrightarrow> genSplit (p @ c # q @ [c]) [c] = [p, q, []]"
  by (simp add: genSplit_append genSplit_no_sep genSplit_Nil)

lemma endsVisible_tiet: "endsVisible (a @ '' ti'' @ [CHR 0xE1, CHR 0xBA, CHR 0xBF] @ ''t'')"
  by (simp add: endsVisible_def asciiSpace_def)

subsection \<open>Runes of more than one byte are not ASCII\<close>

lemma mod_shift: "(n::nat) * q \<le> x \<Longrightarrow> x < n * q + n \<Longrightarrow> x mod n = x - n * q"
proof -
  assume a: "n * q \<le> x" "x < n * q + n"
  define k where "k = x - n * q"
  from a have "x = n * q + k" "k < n" by (simp_all add: k_def)
  then show ?thesis by simp
qed

lemma two_byte_rune:
  assumes "0xC2 \<le> (s0::nat)" and "s0 < 0xE0"
  shows "0x80 \<le> s0 mod 32 * 64 + (x::nat)"
proof -
  have "s0 mod 32 = s0 - 192" using assms mod_shift [of 32 6 s0] by simp
  with assms show ?thesis by simp
qed

lemma three_byte_rune:
  assumes "0xE1 \<le> (s0::nat)" and "s0 < 0xF0"
  shows "0x80 \<le> s0 mod 16 * 4096 + (x::nat)"
proof -
  have "s0 mod 16 = s0 - 224" using assms mod_shift [of 16 14 s0] by simp
  moreover from assms(1) have "4096 \<le> (s0 - 224) * 4096" by simp
  ultimately show ?thesis by simp
qed

lemma four_byte_rune:
  assumes "0xF1 \<le> (s0::nat)" and "s0 < 0xF5"
  shows "0x80 \<le> s0 mod 8 * 262144 + (x::nat)"
proof -
  have "s0 mod 8 = s0 - 240" using assms mod_shift [of 8 30 s0] by simp
  moreover from assms(1) have "262144 \<le> (s0 - 240) * 262144" by simp
  ultimately show ?thesis by simp
qed

lemma second_byte_rune:
  assumes "0x90 \<le> (s1::nat)" and "s1 \<le> 0xBF"
  shows "0x80 \<le> s1 mod 64 * 64 + (x::nat)" and "0x80 \<le> s1 mod 64 * 4096 + (x::nat)"
proof -
  have "s1 mod 64 = s1 - 128" using assms mod_shift [of 64 2 s1] by simp
  with assms show "0x80 \<le> s1 mod 64 * 64 + (x::nat)" "0x80 \<le> s1 mod 64 * 4096 + (x::nat)"
    by simp_all
qed

lemma DecodeRuneInString_not_ascii:
  assumes "0x80 \<le> (of_char c0 :: nat)"
  shows "0x80 \<le> fst (DecodeRuneInString (c0 # m'))"
proof -
  let ?s0 = "of_char c0 :: nat"
  consider (invalid) "?s0 < 0xC2 \<or> 0xF5 \<le> ?s0" | (two) "0xC2 \<le> ?s0" "?s0 < 0xE0"
    | (E0) "?s0 = 0xE0" | (three) "0xE1 \<le> ?s0" "?s0 < 0xF0"
    | (F0) "?s0 = 0xF0" | (four) "0xF1 \<le> ?s0" "?s0 < 0xF5"
    by linarith
  then show ?thesis
  proof cases
    case invalid
    with assms show ?thesis
      by (simp add: DecodeRuneInString_def RuneError_def Let_def)
  next
    case two
    with assms show ?thesis
      by (simp add: DecodeRuneInString_def RuneError_def Let_def two_byte_rune)
  next
    case E0
    then show ?thesis
      by (simp add: DecodeRuneInString_def RuneError_def Let_def second_byte_rune not_less
            add.assoc)
  next
    case three
    then have "\<not> ?s0 < 0xC2" "\<not> 0xF5 \<le> ?s0" "\<not> ?s0 < 0xE0" "?s0 \<noteq> 0xF0" "?s0 \<noteq> 0xF4"
      "?s0 \<noteq> 0xE0"
      by simp_all
    with assms three show ?thesis
      by (simp add: DecodeRuneInString_def RuneError_def Let_def three_byte_rune not_less
            add.assoc)
  next
    case F0
    then show ?thesis
      by (simp add: DecodeRuneInString_def RuneError_def Let_def second_byte_rune not_less
            add.assoc)
  next
    case four
    then have "\<not> ?s0 < 0xC2" "\<not> 0xF5 \<le> ?s0" "\<not> ?s0 < 0xE0" "\<not> ?s0 < 0xF0" "?s0 \<noteq> 0xE0"
      "?s0 \<noteq> 0xED" "?s0 \<noteq> 0xF0"
      by simp_all
    with assms four show ?thesis
      by (simp add: DecodeRuneInString_def RuneError_def Let_def four_byte_rune not_less
            add.assoc)
  qed
qed

lemma DecodeRuneInString_below_RuneSelf:
  assumes "m \<noteq> []" and "fst (DecodeRuneInString m) < 0x80"
  shows "fst (DecodeRuneInString m) = of_char (hd m)"
proof -
  from assms(1) obtain c0 m' where m: "m = c0 # m'" by (cases m) auto
  show ?thesis
  proof (cases "(of_char c0 :: nat) < 0x80")
    case True
    then show ?thesis by (simp add: m DecodeRuneInString_ascii)
  next
    case False
    then have "0x80 \<le> fst (DecodeRuneInString m)"
      unfolding m by (intro DecodeRuneInString_not_ascii) simp
    with assms(2) show ?thesis by simp
  qed
qed

subsection \<open>The header pattern on a line with any text between number and class\<close>

lemma bt_Star_Cons:
  "bt (Re (Star f) # fs) pos (c # s) cap =
    (if f (fst (DecodeRuneInString (c # s)))
       then (case bt (Re (Star f) # fs) (pos + snd (DecodeRuneInString (c # s)))
                    (drop (snd (DecodeRuneInString (c # s))) (c # s)) cap of
              Some x \<Rightarrow> Some x
            | None \<Rightarrow> bt fs pos (c # s) cap)
     else bt fs pos (c # s) cap)"
  by (subst bt.simps) simp

lemma bt_Star_Nil: "bt (Re (Star f) # fs) pos [] cap = bt fs pos [] cap"
  by (subst bt.simps) simp

lemma bt_Star_stop:
  "s = [] \<or> \<not> f (fst (DecodeRuneInString s)) \<Longrightarrow>
    bt (Re (Star f) # fs) pos s cap = bt fs pos s cap"
  by (subst bt.simps) auto

lemmas bt_symbolic = bt.simps(1-9) bt.simps(12-14) bt_Star_Cons bt_Star_Nil

text \<open>
  A greedy \<open>.*\<close> in front of a text \<open>tail\<close> that starts with an ASCII byte: when the match
  succeeds from \<open>tail\<close> on, it succeeds with the same captures from any text \<open>mid @ tail\<close>
  without a line break in \<open>mid\<close>, the longer alternative being tried first.
\<close>

lemma bt_Star_skip:
  assumes "CHR 0x0A \<notin> set mid" and "(of_char c :: nat) < 0x80"
    and "bt (Re (Star anyCharNotNL) # fs) (pos + length mid) (c # t) cap = Some r"
  shows "bt (Re (Star anyCharNotNL) # fs) pos (mid @ c # t) cap = Some r"
  using assms(1,3)
proof (induction "length mid" arbitrary: mid pos rule: less_induct)
  case less
  show ?case
  proof (cases "mid = []")
    case True
    with less.prems show ?thesis by simp
  next
    case False
    let ?s = "mid @ c # t"
    have d: "DecodeRuneInString ?s = DecodeRuneInString mid"
      by (rule DecodeRuneInString_before_ascii [OF False assms(2)])
    let ?w = "snd (DecodeRuneInString mid)"
    have w: "1 \<le> ?w" "?w \<le> length mid"
      using DecodeRuneInString_width [OF False] by simp_all
    have nl: "anyCharNotNL (fst (DecodeRuneInString mid))"
    proof (rule ccontr)
      assume "\<not> anyCharNotNL (fst (DecodeRuneInString mid))"
      then have e: "fst (DecodeRuneInString mid) = 0x0A" by (simp add: anyCharNotNL_def)
      then have "fst (DecodeRuneInString mid) = of_char (hd mid)"
        by (intro DecodeRuneInString_below_RuneSelf [OF False]) simp
      with e have "(of_char (hd mid) :: nat) = of_char (CHR 0x0A)" by simp
      then have "hd mid = CHR 0x0A" by (simp only: of_char_eq_iff)
      with False less.prems(1) show False by (cases mid) auto
    qed
    have "length (drop ?w mid) < length mid" using w False by (cases mid) auto
    moreover have "CHR 0x0A \<notin> set (drop ?w mid)"
      using less.prems(1) by (meson in_set_dropD)
    moreover have "bt (Re (Star anyCharNotNL) # fs) (pos + ?w + length (drop ?w mid)) (c # t) cap
        = Some r"
      using less.prems(2) w by simp
    ultimately have "bt (Re (Star anyCharNotNL) # fs) (pos + ?w) (drop ?w mid @ c # t) cap = Some r"
      by (rule less.hyps)
    moreover have "drop ?w ?s = drop ?w mid @ c # t" using w by simp
    ultimately show ?thesis
      using nl d by (subst bt.simps) simp
  qed
qed

lemmas eval_classes = digit_def upper_def lower_def perlSpace_def anyCharNotNL_def
  upperDigit_def digitDash_def alnumDot_def notDash_def

lemma header_prefix:
  "bt [Re headerRe] P (Tuan_source @ '' 5'' @ X) [0 \<mapsto> P]
    = bt [Re (Star digit), SetCap 3, Re (Concat (Star anyCharNotNL # headerTailRe))] (9 + P) X
        [0 \<mapsto> P, 2 \<mapsto> 8 + P]"
proof -
  have e: "bt [Re headerRe] P (Tuan_source @ '' 5'' @ X) [0 \<mapsto> P]
    = bt [Re (Star digit), SetCap 3, Re (Concat (Star anyCharNotNL # headerTailRe))]
        (Suc (Suc (Suc (Suc (Suc (Suc (Suc (Suc (Suc P))))))))) X
        [0 \<mapsto> P, 2 \<mapsto> Suc (Suc (Suc (Suc (Suc (Suc (Suc (Suc P)))))))]"
    by (simp add: headerRe_def headerTailRe_def ascii_def bt_symbolic eval_classes
          DecodeRuneInString_def Let_def RuneError_def)
  have n: "9 + P = Suc (Suc (Suc (Suc (Suc (Suc (Suc (Suc (Suc P))))))))"
    "8 + P = Suc (Suc (Suc (Suc (Suc (Suc (Suc (Suc P)))))))"
    by simp_all
  show ?thesis unfolding n e by (rule refl)
qed

lemma header_tail_end:
  "bt [Re (Star anyCharNotNL), Re (Concat headerTailRe)] P (lop_colon @ '' CNTT01'') cap
    = Some (cap(4 \<mapsto> 7 + P, 5 \<mapsto> 13 + P, 1 \<mapsto> 13 + P))"
  by (simp add: headerTailRe_def ascii_def bt_symbolic eval_classes
        DecodeRuneInString_def Let_def RuneError_def)

lemma header_tail_newline:
  "bt [Re (Star anyCharNotNL), Re (Concat headerTailRe)] P
      (lop_colon @ '' CNTT01'' @ newline @ rest) cap
    = Some (cap(4 \<mapsto> 7 + P, 5 \<mapsto> 13 + P, 1 \<mapsto> 13 + P))"
  by (simp add: headerTailRe_def ascii_def bt_symbolic eval_classes
        DecodeRuneInString_def Let_def RuneError_def)

lemma header_no_digit:
  assumes "mid = [] \<or> \<not> digit (of_char (hd mid))"
  shows "bt (Re (Star digit) # fs) pos (mid @ lop_colon @ t) cap
    = bt fs pos (mid @ lop_colon @ t) cap"
proof (rule bt_Star_stop, rule disjI2)
  show "\<not> digit (fst (DecodeRuneInString (mid @ lop_colon @ t)))"
  proof (cases "mid = []")
    case True
    then show ?thesis by (simp add: DecodeRuneInString_def digit_def)
  next
    case False
    have d: "DecodeRuneInString (mid @ lop_colon @ t) = DecodeRuneInString mid"
      using DecodeRuneInString_before_ascii [OF False, of "CHR ''l''"] by simp
    show ?thesis
    proof
      assume a: "digit (fst (DecodeRuneInString (mid @ lop_colon @ t)))"
      then have a': "digit (fst (DecodeRuneInString mid))" unfolding d .
      then have "fst (DecodeRuneInString mid) < 0x80" by (simp add: digit_def)
      from DecodeRuneInString_below_RuneSelf [OF False this] a'
      have "digit (of_char (hd mid))" by simp
      with assms False show False by simp
    qed
  qed
qed

subsection \<open>Evaluation\<close>

text \<open>The equations that evaluate the model on a concrete input.\<close>

lemmas eval_strings = HasPrefix_def HasSuffix_def TrimPrefix_def TrimSuffix_def Contains_def
  Split_def genSplit.simps ReplaceAll_def replaceLoop.simps TrimSpace_def asciiSpace_def
  TrimFunc_def TrimRightFunc_def TrimLeftFunc.simps lastIndexFunc.simps IsSpace_def
  DecodeRuneInString_def DecodeLastRuneInString_def scanStart.simps RuneStart_def
  RuneSelf_def RuneError_def Let_def

lemmas eval_regex = FindStringSubmatch_def search.simps bt.simps submatch_def ascii_def
  digit_def upper_def lower_def perlSpace_def anyCharNotNL_def
  upperDigit_def digitDash_def alnumDot_def notDash_def index_def
  DecodeRuneInString_def RuneError_def Let_def

section \<open>The claims\<close>

subsection \<open>The parse never fails\<close>

text \<open>
  Claim C1. \<^verbatim>\<open>parseSchedule\<close> returns a \<open>Schedule\<close> for every input: no index of the
  program is out of range (\<open>None\<close> is the panic), and every function of the model,
  the library's and the program's, is total, each recursion with its termination proof.
\<close>

theorem parseSchedule_total: "\<exists>schedule. parseSchedule input = Some schedule"
proof -
  obtain week className where h: "parseHeader input = Some (week, className)"
    using parseHeader_total by blast
  obtain st where l: "parseSchedule_loop (Split input newline)
      \<lparr>days = Map.empty, currentDay = [], dayLines = []\<rparr> = Some st"
    using parseSchedule_loop_total by blast
  obtain m where c: "closeDay st = Some m"
    using closeDay_total by blast
  show ?thesis
    by (simp add: parseSchedule_def h l c)
qed

subsection \<open>The subject parser\<close>

text \<open>
  Claim C2. A slot text that contains the no-class marker \<open>Nghi\<close> (U+1EC9 for the i)
  anywhere, whatever stands before and after it, is parsed into the empty sequence of
  subjects, and without a panic.
\<close>

theorem no_class_marker_gives_no_subjects:
  "parseSubjects (pre @ Nghi @ post) = Some []"
proof -
  have "Contains (pre @ Nghi @ post) Nghi"
    unfolding Contains_iff by blast
  then show ?thesis by (simp add: parseSubjects_def)
qed

text \<open>
  Claim C3. The slot text of the specification is parsed into exactly one subject, with
  the name \<open>Toan\<close> trimmed of the space that follows it in the text, and the six other
  fields as the specification lists them.
\<close>

theorem parseSubjects_example:
  "parseSubjects toan_entry = Some [toan_subject]"
  by (simp add: parseSubjects_def splitSubjects_def subjectRe_def eval_strings eval_regex)

text \<open>
  Claim C8. For a slot text without the no-class marker, \<^verbatim>\<open>parseSubjects\<close> returns,
  without a panic, the subjects of exactly those fragments of \<^verbatim>\<open>splitSubjects\<close> that
  match the subject pattern, in the order of the fragments: a fragment that does not match
  contributes nothing, and every fragment that matches is parsed.
\<close>

theorem unmatched_fragments_are_dropped:
  "\<not> Contains input Nghi \<Longrightarrow>
    parseSubjects input = Some (map subjectOf (filter matchesSubject (splitSubjects input)))"
  by (simp add: parseSubjects_def parseSubjects_loop_eq)

text \<open>
  A slot of two fragments: the first lacks the lessons fraction and is dropped, the second
  is parsed.
\<close>

theorem unmatched_fragments_are_dropped_witness:
  "\<not> Contains (vatly_no_lessons @ tiet_space @ toan_entry) Nghi
   \<and> splitSubjects (vatly_no_lessons @ tiet_space @ toan_entry)
       = [vatly_no_lessons @ '' ti'' @ [CHR 0xE1, CHR 0xBA, CHR 0xBF] @ ''t'', toan_entry]
   \<and> \<not> matchesSubject (vatly_no_lessons @ '' ti'' @ [CHR 0xE1, CHR 0xBA, CHR 0xBF] @ ''t'')
   \<and> parseSubjects (vatly_no_lessons @ tiet_space @ toan_entry) = Some [toan_subject]"
proof -
  have c: "\<not> Contains (vatly_no_lessons @ tiet_space @ toan_entry) Nghi"
    by (simp add: eval_strings)
  have s: "splitSubjects (vatly_no_lessons @ tiet_space @ toan_entry)
      = [vatly_no_lessons @ '' ti'' @ [CHR 0xE1, CHR 0xBA, CHR 0xBF] @ ''t'', toan_entry]"
    by (simp add: splitSubjects_def eval_strings)
  have m1: "\<not> matchesSubject (vatly_no_lessons @ '' ti'' @ [CHR 0xE1, CHR 0xBA, CHR 0xBF] @ ''t'')"
    by (simp add: matchesSubject_def subjectRe_def eval_regex)
  have m2: "matchesSubject toan_entry \<and> subjectOf toan_entry = toan_subject"
    by (simp add: matchesSubject_def subjectOf_def subjectRe_def eval_regex eval_strings)
  from unmatched_fragments_are_dropped [OF c] c s m1 m2
  show ?thesis
    by simp
qed

subsection \<open>The subject-line splitter\<close>

text \<open>
  Claim C5, as it stands, fails: two entries that each contain the delimiter exactly once,
  but not at their end, are split into three fragments, the text after the first delimiter
  running into the second entry.
\<close>

theorem splitSubjects_two_entries_counterexample:
  "occurrences (''A'' @ tiet_space @ ''B'') tiet_space = 1
   \<and> occurrences (''C'' @ tiet_space @ ''D'') tiet_space = 1
   \<and> splitSubjects ((''A'' @ tiet_space @ ''B'') @ (''C'' @ tiet_space @ ''D''))
       = [''A ti'' @ [CHR 0xE1, CHR 0xBA, CHR 0xBF] @ ''t'',
          ''BC ti'' @ [CHR 0xE1, CHR 0xBA, CHR 0xBF] @ ''t'',
          ''D'']"
  by (simp add: occurrences_def splitSubjects_def eval_strings upt_rec)

text \<open>
  Claim C5, amended. For two entries without a line break, each ending with the delimiter
  and containing it at no other position, \<^verbatim>\<open>splitSubjects\<close> of their concatenation
  returns exactly two fragments: the first entry and the second entry, each trimmed of the
  white space around it, in this order.
\<close>

theorem splitSubjects_two_entries:
  assumes "occurrences (a1 @ tiet_space) tiet_space = 1"
    and "occurrences (a2 @ tiet_space) tiet_space = 1"
    and "CHR 0x0A \<notin> set a1" and "CHR 0x0A \<notin> set a2"
  shows "splitSubjects ((a1 @ tiet_space) @ (a2 @ tiet_space))
    = [TrimSpace (a1 @ tiet_space), TrimSpace (a2 @ tiet_space)]"
proof -
  let ?t = "'' ti'' @ [CHR 0xE1, CHR 0xBA, CHR 0xBF] @ ''t''"
  have r: "ReplaceAll ((a1 @ tiet_space) @ (a2 @ tiet_space)) tiet_space tiet_newline
      = (a1 @ ?t) @ CHR 0x0A # (a2 @ ?t) @ CHR 0x0A # []"
    using replaceLoop_entry [OF assms(1), of "a2 @ tiet_space" tiet_newline]
      replaceLoop_entry [OF assms(2), of "[]" tiet_newline]
    by (simp add: ReplaceAll_def replaceLoop_Nil)
  have n: "CHR 0x0A \<notin> set (a1 @ ?t)" "CHR 0x0A \<notin> set (a2 @ ?t)"
    using assms(3,4) by simp_all
  have s: "Split ((a1 @ ?t) @ CHR 0x0A # (a2 @ ?t) @ CHR 0x0A # []) newline
      = [a1 @ ?t, a2 @ ?t, []]"
    using genSplit_two [OF n] by (simp add: Split_def)
  have e: "TrimSpace (a1 @ ?t) \<noteq> []" "TrimSpace (a2 @ ?t) \<noteq> []"
    using TrimSpace_endsVisible_not_empty [OF endsVisible_tiet] by simp_all
  have t: "TrimSpace (a1 @ tiet_space) = TrimSpace (a1 @ ?t)"
    "TrimSpace (a2 @ tiet_space) = TrimSpace (a2 @ ?t)"
    using TrimSpace_endsVisible_space [OF endsVisible_tiet, of a1]
      TrimSpace_endsVisible_space [OF endsVisible_tiet, of a2] by simp_all
  have "TrimSpace [] = []" by (simp add: TrimSpace_def)
  with e show ?thesis
    unfolding splitSubjects_def Let_def r s t by (simp add: Let_def)
qed

text \<open>The two subject entries of the examples, each closed by the delimiter.\<close>

theorem splitSubjects_two_entries_witness:
  "occurrences (toan_entry @ tiet_space) tiet_space = 1
   \<and> occurrences (vatly_entry @ tiet_space) tiet_space = 1
   \<and> CHR 0x0A \<notin> set toan_entry \<and> CHR 0x0A \<notin> set vatly_entry
   \<and> splitSubjects ((toan_entry @ tiet_space) @ (vatly_entry @ tiet_space))
       = [toan_entry @ '' ti'' @ [CHR 0xE1, CHR 0xBA, CHR 0xBF] @ ''t'',
          vatly_entry @ '' ti'' @ [CHR 0xE1, CHR 0xBA, CHR 0xBF] @ ''t'']"
proof -
  have o1: "occurrences (toan_entry @ tiet_space) tiet_space = 1"
    by (simp add: occurrences_def HasPrefix_def upt_rec)
  have o2: "occurrences (vatly_entry @ tiet_space) tiet_space = 1"
    by (simp add: occurrences_def HasPrefix_def upt_rec)
  have n: "CHR 0x0A \<notin> set toan_entry" "CHR 0x0A \<notin> set vatly_entry"
    by simp_all
  have t: "TrimSpace (toan_entry @ tiet_space)
        = toan_entry @ '' ti'' @ [CHR 0xE1, CHR 0xBA, CHR 0xBF] @ ''t''"
    "TrimSpace (vatly_entry @ tiet_space)
        = vatly_entry @ '' ti'' @ [CHR 0xE1, CHR 0xBA, CHR 0xBF] @ ''t''"
    by (simp_all add: eval_strings)
  from splitSubjects_two_entries [OF o1 o2 n] o1 o2 n t
  show ?thesis by simp
qed

text \<open>
  Claim C6, as it stands, fails: the empty input does not contain the delimiter and gives
  no fragment at all, and an input with a line break and no delimiter gives two.
\<close>

theorem splitSubjects_without_delimiter_counterexample:
  "\<not> Contains [] tiet_space \<and> splitSubjects [] = []
   \<and> \<not> Contains (''a'' @ newline @ ''b'') tiet_space
   \<and> splitSubjects (''a'' @ newline @ ''b'') = [''a'', ''b'']"
  by (simp add: splitSubjects_def eval_strings)

text \<open>
  Claim C6, amended. For an input that contains neither the delimiter nor a line break,
  \<^verbatim>\<open>splitSubjects\<close> returns the input trimmed of the white space around it as its only
  fragment, or no fragment when nothing is left of the input after trimming; and for every
  input, no fragment of the output is empty.
\<close>

theorem splitSubjects_without_delimiter:
  "(\<not> Contains input tiet_space \<and> CHR 0x0A \<notin> set input \<longrightarrow>
      splitSubjects input = (if TrimSpace input = [] then [] else [TrimSpace input]))
   \<and> [] \<notin> set (splitSubjects input)"
proof (intro conjI impI)
  assume a: "\<not> Contains input tiet_space \<and> CHR 0x0A \<notin> set input"
  then have r: "ReplaceAll input tiet_space tiet_newline = input"
    using ReplaceAll_not_Contains by blast
  from a have "Split input newline = [input]"
    by (simp add: Split_def genSplit_no_sep)
  with r show "splitSubjects input = (if TrimSpace input = [] then [] else [TrimSpace input])"
    by (simp add: splitSubjects_def Let_def)
next
  show "[] \<notin> set (splitSubjects input)" by (rule splitSubjects_no_empty)
qed

text \<open>
  An entry with a space in front of it is one fragment, the entry; a single space is none.
\<close>

theorem splitSubjects_without_delimiter_witness:
  "\<not> Contains ('' '' @ toan_entry) tiet_space \<and> CHR 0x0A \<notin> set ('' '' @ toan_entry)
   \<and> splitSubjects ('' '' @ toan_entry) = [toan_entry]
   \<and> splitSubjects '' '' = []"
proof -
  have a: "\<not> Contains ('' '' @ toan_entry) tiet_space \<and> CHR 0x0A \<notin> set ('' '' @ toan_entry)"
    by (simp add: eval_strings)
  have b: "\<not> Contains '' '' tiet_space \<and> CHR 0x0A \<notin> set '' ''"
    by (simp add: eval_strings)
  have t: "TrimSpace ('' '' @ toan_entry) = toan_entry" "TrimSpace '' '' = []"
    by (simp_all add: eval_strings)
  from splitSubjects_without_delimiter [of "'' '' @ toan_entry"]
       splitSubjects_without_delimiter [of "'' ''"] a b t
  show ?thesis by simp
qed

subsection \<open>The header extractor\<close>

text \<open>
  Claim C7, as it stands, fails: the pattern spells the first word with the two runes
  U+00E2 U+0300 and compares runes, so the header line of the specification, which spells
  the word with the one rune U+1EA7, does not match, and both results are empty.
\<close>

theorem parseHeader_intervening_text_counterexample:
  "parseHeader header_precomposed = Some ([], [])"
  by (simp add: parseHeader_def headerRe_def eval_strings eval_regex)

text \<open>
  Claim C7, amended. For an input whose header line is the source's spelling of the first
  word, a space, the number \<open>5\<close>, any text \<open>mid\<close>, \<^verbatim>\<open>lop:\<close>, a space and the code
  \<open>CNTT01\<close>, \<^verbatim>\<open>parseHeader\<close> returns the week \<open>5\<close> and the class \<open>CNTT01\<close>. The
  number and the class code need not be adjacent: \<open>mid\<close> is any text without a line break
  that does not start with a digit (a digit there would belong to the number); the header
  line ends the input or is followed by a line break and any further lines.
\<close>

theorem parseHeader_intervening_text:
  assumes "CHR 0x0A \<notin> set mid" and "mid = [] \<or> \<not> digit (of_char (hd mid))"
    and "rest = [] \<or> hd rest = CHR 0x0A"
  shows "parseHeader (Tuan_source @ '' 5'' @ mid @ lop_colon @ '' CNTT01'' @ rest)
    = Some (''5'', ''CNTT01'')"
proof -
  let ?tail = "lop_colon @ '' CNTT01'' @ rest"
  let ?input = "Tuan_source @ '' 5'' @ mid @ ?tail"
  let ?cap = "[0 \<mapsto> 0, 2 \<mapsto> 8, 3 \<mapsto> 9, 4 \<mapsto> 16 + length mid, 5 \<mapsto> 22 + length mid,
    1 \<mapsto> 22 + length mid]"
  have t: "bt [Re (Star anyCharNotNL), Re (Concat headerTailRe)] (9 + length mid) ?tail
      [0 \<mapsto> 0, 2 \<mapsto> 8, 3 \<mapsto> 9] = Some ?cap"
  proof (cases "rest = []")
    case True
    then show ?thesis
      using header_tail_end [of "9 + length mid" "[0 \<mapsto> 0, 2 \<mapsto> 8, 3 \<mapsto> 9]"] by simp
  next
    case False
    with assms(3) obtain rest' where "rest = newline @ rest'" by (cases rest) auto
    then show ?thesis
      using header_tail_newline [of "9 + length mid" rest' "[0 \<mapsto> 0, 2 \<mapsto> 8, 3 \<mapsto> 9]"]
      by simp
  qed
  have "bt [Re headerRe] 0 ?input [0 \<mapsto> 0]
      = bt [Re (Star digit), SetCap 3, Re (Concat (Star anyCharNotNL # headerTailRe))] 9
          (mid @ ?tail) [0 \<mapsto> 0, 2 \<mapsto> 8]"
    using header_prefix [of 0 "mid @ ?tail"] by simp
  also have "\<dots> = bt [SetCap 3, Re (Concat (Star anyCharNotNL # headerTailRe))] 9
      (mid @ ?tail) [0 \<mapsto> 0, 2 \<mapsto> 8]"
    using header_no_digit [OF assms(2)] by simp
  also have "\<dots> = bt [Re (Star anyCharNotNL), Re (Concat headerTailRe)] 9
      (mid @ ?tail) [0 \<mapsto> 0, 2 \<mapsto> 8, 3 \<mapsto> 9]"
    by (simp add: bt.simps(2,7))
  also have "\<dots> = Some ?cap"
    using bt_Star_skip [OF assms(1), of "CHR ''l''" "[Re (Concat headerTailRe)]" 9
        "[CHR 0xE1, CHR 0xBB, CHR 0x9B] @ ''p: CNTT01'' @ rest" "[0 \<mapsto> 0, 2 \<mapsto> 8, 3 \<mapsto> 9]" ?cap] t
    by simp
  finally have s: "search headerRe 0 ?input = Some ?cap"
    by (subst search.simps) simp
  have s1: "submatch ?input ?cap 1 = ''5''"
    by (simp add: submatch_def)
  have s2: "submatch ?input ?cap 2 = ''CNTT01''"
  proof -
    have "?input = (Tuan_source @ '' 5'' @ mid @ lop_colon @ '' '') @ (''CNTT01'' @ rest)"
      by simp
    moreover have "length (Tuan_source @ '' 5'' @ mid @ lop_colon @ '' '') = 16 + length mid"
      by simp
    ultimately have "drop (16 + length mid) ?input = ''CNTT01'' @ rest"
      by (metis append_eq_conv_conj)
    then show ?thesis by (simp add: submatch_def)
  qed
  have u: "[0..<1 + MaxCap headerRe] = [0, 1, 2]"
    by (simp add: MaxCap_headerRe upt_rec)
  have "FindStringSubmatch headerRe ?input = [submatch ?input ?cap 0, ''5'', ''CNTT01'']"
    unfolding FindStringSubmatch_def s u using s1 s2 by simp
  then show ?thesis
    unfolding parseHeader_def by (simp add: index_def)
qed

text \<open>
  The header line of the specification in the source's spelling, with the three dots
  between the number and the class; and a document with another text between them and a
  day block after the header line.
\<close>

theorem parseHeader_intervening_text_witness:
  "parseHeader header_source = Some (''5'', ''CNTT01'')
   \<and> parseHeader (Tuan_source @ '' 5'' @ '' (hoc ky 1), '' @ lop_colon @ '' CNTT01''
        @ (newline @ newline @ Thu @ '' 2:'' @ newline @ ''  '' @ Sang_label @ '' '' @ Nghi
           @ newline))
       = Some (''5'', ''CNTT01'')"
proof -
  have a: "CHR 0x0A \<notin> set '' ... ''" "'' ... '' = [] \<or> \<not> digit (of_char (hd '' ... ''))"
    "([] :: string) = [] \<or> hd ([] :: string) = CHR 0x0A"
    by (simp_all add: digit_def)
  have b: "CHR 0x0A \<notin> set '' (hoc ky 1), ''"
    "'' (hoc ky 1), '' = [] \<or> \<not> digit (of_char (hd '' (hoc ky 1), ''))"
    "newline @ newline @ Thu @ '' 2:'' @ newline @ ''  '' @ Sang_label @ '' '' @ Nghi @ newline = []
      \<or> hd (newline @ newline @ Thu @ '' 2:'' @ newline @ ''  '' @ Sang_label @ '' '' @ Nghi
            @ newline) = CHR 0x0A"
    by (simp_all add: digit_def)
  from parseHeader_intervening_text [OF a] parseHeader_intervening_text [OF b]
  show ?thesis by simp
qed

subsection \<open>The day parser\<close>

text \<open>
  Claim C10. In a day block, the slot of a label holds the subjects of the last line that
  carries the label: whatever lines stand before it, lines of the same label included, the
  slot is what \<^verbatim>\<open>parseSubjects\<close> returns for that last line.
\<close>

theorem last_slot_line_wins:
  assumes "HasPrefix (TrimSpace l) (slotLabel k)"
    and "\<forall>l' \<in> set after. \<not> HasPrefix (TrimSpace l') (slotLabel k)"
  shows "\<exists>day subjects. parseDay (before @ l # after) = Some day
    \<and> parseSubjects (TrimPrefix (TrimSpace l) (slotLabel k)) = Some subjects
    \<and> slotOf k day = subjects"
proof -
  obtain subjects where s: "parseSubjects (TrimPrefix (TrimSpace l) (slotLabel k)) = Some subjects"
    using parseSubjects_total by blast
  obtain day1 where d1: "parseDay_loop before \<lparr>Sang = [], Chieu = [], Toi = []\<rparr> = Some day1"
    using parseDay_loop_total by blast
  obtain day2 where d2: "parseDay_loop (l # after) day1 = parseDay_loop after day2"
    and k2: "slotOf k day2 = subjects"
    using parseDay_loop_step [OF assms(1) s] by blast
  obtain day3 where d3: "parseDay_loop after day2 = Some day3"
    using parseDay_loop_total by blast
  have "slotOf k day3 = subjects"
    using parseDay_loop_keeps_slot [OF assms(2) d3] k2 by simp
  moreover have "parseDay (before @ l # after) = Some day3"
    unfolding parseDay_def parseDay_loop_append [of before "l # after"] d1
    using d2 d3 by (simp del: parseDay_loop.simps)
  ultimately show ?thesis using s by simp
qed

text \<open>
  Two morning lines in one day block, then an afternoon line: the morning slot holds the
  subject of the second morning line only.
\<close>

theorem last_slot_line_wins_witness:
  "map_option Sang (parseDay
      [''  '' @ Sang_label @ '' '' @ toan_entry,
       ''  '' @ Sang_label @ '' '' @ vatly_entry,
       ''  '' @ Chieu_label @ '' '' @ Nghi])
    = Some [vatly_subject]"
proof -
  have a: "HasPrefix (TrimSpace (''  '' @ Sang_label @ '' '' @ vatly_entry)) (slotLabel Morning)"
    by (simp add: eval_strings)
  have b: "\<forall>l' \<in> set [''  '' @ Chieu_label @ '' '' @ Nghi].
      \<not> HasPrefix (TrimSpace l') (slotLabel Morning)"
    by (simp add: eval_strings)
  have c: "parseSubjects (TrimPrefix (TrimSpace (''  '' @ Sang_label @ '' '' @ vatly_entry))
      (slotLabel Morning)) = Some [vatly_subject]"
    by (simp add: parseSubjects_def splitSubjects_def subjectRe_def eval_strings eval_regex)
  from last_slot_line_wins [OF a b, of "[''  '' @ Sang_label @ '' '' @ toan_entry]"] c
  show ?thesis by auto
qed

subsection \<open>The schedule assembler\<close>

text \<open>
  Claim C4. When the day blocks of a document are \<open>earlier @ (label, ls) # later\<close> and no
  later block has this label, the day map of the schedule holds under \<open>label\<close> the parsed
  content of \<open>ls\<close>, whether or not an earlier block has the same label: the latest block
  of a label replaces every earlier one.
\<close>

theorem repeated_day_label_last_write_wins:
  assumes "dayBlocks (docLines input) = earlier @ (label, ls) # later"
    and "label \<notin> fst ` set later"
  shows "\<exists>schedule day. parseSchedule input = Some schedule \<and> parseDay ls = Some day
    \<and> Days schedule label = Some day"
proof -
  obtain schedule where s: "parseSchedule input = Some schedule"
    and d: "Days schedule = recorded (dayBlocks (docLines input))"
    using parseSchedule_Days by blast
  have "Days schedule label = Some (parsedDay ls)"
    unfolding d assms(1) by (rule recorded_last [OF assms(2)])
  with s parseDay_parsedDay show ?thesis by simp
qed

text \<open>
  A document with the day \<open>Thu 2\<close> twice, first with an afternoon subject, later with a
  morning off: under this label the schedule holds the later block, and the afternoon of
  the earlier block is gone.
\<close>

theorem repeated_day_label_last_write_wins_witness:
  "map_option (\<lambda>schedule. Days schedule (Thu @ '' 2''))
      (parseSchedule
        (Thu @ '' 2:'' @ newline @ ''  '' @ Chieu_label @ '' '' @ toan_entry @ newline
         @ newline
         @ Thu @ '' 3:'' @ newline @ ''  '' @ Sang_label @ '' '' @ Nghi @ newline
         @ Thu @ '' 2:'' @ newline @ ''  '' @ Sang_label @ '' '' @ Nghi @ newline))
    = Some (Some \<lparr>Sang = [], Chieu = [], Toi = []\<rparr>)"
proof -
  have a: "dayBlocks (docLines
        (Thu @ '' 2:'' @ newline @ ''  '' @ Chieu_label @ '' '' @ toan_entry @ newline
         @ newline
         @ Thu @ '' 3:'' @ newline @ ''  '' @ Sang_label @ '' '' @ Nghi @ newline
         @ Thu @ '' 2:'' @ newline @ ''  '' @ Sang_label @ '' '' @ Nghi @ newline))
      = [(Thu @ '' 2'', [Chieu_label @ '' '' @ toan_entry]),
         (Thu @ '' 3'', [Sang_label @ '' '' @ Nghi])]
        @ (Thu @ '' 2'', [Sang_label @ '' '' @ Nghi]) # []"
    by (simp add: docLines_def isDayHeader_def eval_strings)
  have b: "Thu @ '' 2'' \<notin> fst ` set ([] :: (string \<times> string list) list)"
    by simp
  have c: "parseDay [Sang_label @ '' '' @ Nghi] = Some \<lparr>Sang = [], Chieu = [], Toi = []\<rparr>"
    by (simp add: parseDay_def parseSubjects_def eval_strings)
  from repeated_day_label_last_write_wins [OF a b] c
  show ?thesis by auto
qed

text \<open>
  Claim C9. When no line of \<open>p\<close> is a day header, the day map of the document
  \<open>p\<close>, line break, \<open>r\<close> is the day map of \<open>r\<close> alone: the lines before the first day
  header have no effect on it.
\<close>

theorem lines_before_first_day_header_are_discarded:
  assumes "\<forall>l \<in> set (Split p newline). \<not> isDayHeader (TrimSpace l)"
  shows "map_option Days (parseSchedule (p @ newline @ r)) = map_option Days (parseSchedule r)"
proof -
  from assms have "\<forall>l \<in> set (docLines p). \<not> isDayHeader l"
    by (auto simp: docLines_def)
  then have "dayBlocks (docLines (p @ newline @ r)) = dayBlocks (docLines r)"
    by (simp only: docLines_append dayBlocks_skip)
  moreover obtain s1 where "parseSchedule (p @ newline @ r) = Some s1"
    "Days s1 = recorded (dayBlocks (docLines (p @ newline @ r)))"
    using parseSchedule_Days by blast
  moreover obtain s2 where "parseSchedule r = Some s2"
    "Days s2 = recorded (dayBlocks (docLines r))"
    using parseSchedule_Days by blast
  ultimately show ?thesis by simp
qed

text \<open>
  The header line and a line of notes in front of a day block: the day map is that of the
  day block alone, with its one day.
\<close>

theorem lines_before_first_day_header_are_discarded_witness:
  "Split (header_source @ newline @ ''ghi chu'') newline = [header_source, ''ghi chu'']
   \<and> map_option Days (parseSchedule ((header_source @ newline @ ''ghi chu'') @ newline
        @ (Thu @ '' 2:'' @ newline @ ''  '' @ Sang_label @ '' '' @ Nghi @ newline)))
     = map_option Days (parseSchedule
        (Thu @ '' 2:'' @ newline @ ''  '' @ Sang_label @ '' '' @ Nghi @ newline))
   \<and> map_option (\<lambda>schedule. Days schedule (Thu @ '' 2'')) (parseSchedule
        (Thu @ '' 2:'' @ newline @ ''  '' @ Sang_label @ '' '' @ Nghi @ newline))
     = Some (Some \<lparr>Sang = [], Chieu = [], Toi = []\<rparr>)"
proof -
  have s: "Split (header_source @ newline @ ''ghi chu'') newline = [header_source, ''ghi chu'']"
    by (simp add: eval_strings)
  have a: "\<forall>l \<in> set (Split (header_source @ newline @ ''ghi chu'') newline).
      \<not> isDayHeader (TrimSpace l)"
    unfolding s by (simp add: isDayHeader_def eval_strings)
  have d: "map_option (\<lambda>schedule. Days schedule (Thu @ '' 2'')) (parseSchedule
        (Thu @ '' 2:'' @ newline @ ''  '' @ Sang_label @ '' '' @ Nghi @ newline))
     = Some (Some \<lparr>Sang = [], Chieu = [], Toi = []\<rparr>)"
    by (simp add: parseSchedule_def parseHeader_def headerRe_def closeDay_def parseDay_def
          parseSubjects_def isDayHeader_def eval_strings eval_regex)
  from lines_before_first_day_header_are_discarded [OF a,
      of "Thu @ '' 2:'' @ newline @ ''  '' @ Sang_label @ '' '' @ Nghi @ newline"] s d
  show ?thesis by simp
qed

end
